theory Spec2Isabelle
  imports Complex_Main
begin

section \<open>Teleprompter layout and scroll engine (teleprompter.py)\<close>

text \<open>
  A shallow embedding of the engine part of \<^verbatim>\<open>teleprompter.py\<close>: the alpha fade table,
  the text parser and greedy line wrapper of \<^verbatim>\<open>_ensure_layout\<close>, the two caches, the
  playback operations and the scroll tick \<^verbatim>\<open>_scroll_step\<close>.

  Conventions. Python \<^verbatim>\<open>int\<close> is \<^typ>\<open>int\<close>. Python \<^verbatim>\<open>float\<close> is idealised as
  \<^typ>\<open>real\<close>: the model computes without rounding. \<^verbatim>\<open>str\<close> is \<^typ>\<open>string\<close>. The empty
  tuple \<^verbatim>\<open>()\<close> that marks an invalid cache key is \<^term>\<open>None\<close>. Qt widget calls that only
  repaint or relabel (\<^verbatim>\<open>update()\<close>, \<^verbatim>\<open>_panel_sync\<close>, the notes window) are outside
  the state; the font metrics that Qt supplies are a parameter.
\<close>

subsection \<open>Numbers\<close>

text \<open>Python's \<^verbatim>\<open>int(x)\<close> on a float truncates toward zero.\<close>

definition py_int :: "real \<Rightarrow> int" where
  "py_int x = (if 0 \<le> x then \<lfloor>x\<rfloor> else \<lceil>x\<rceil>)"

subsection \<open>Alpha fade table\<close>

text \<open>
  \<^verbatim>\<open>_ALPHA_LUT = [max(0, 255 - int(d * 0.75)) for d in range(512)]\<close>
\<close>

definition ALPHA_LUT :: "int list" where
  "ALPHA_LUT = map (\<lambda>d. max 0 (255 - py_int (real d * 0.75))) [0..<512]"

text \<open>
  The formula as the specification words it, with rounding to the nearest integer in place
  of truncation; it is only compared with the table.
\<close>

definition spec_alpha :: "nat \<Rightarrow> int" where
  "spec_alpha d = max 0 (255 - round (real d * 0.75))"

subsection \<open>Strings\<close>

text \<open>Characters that \<^verbatim>\<open>str.isspace\<close> accepts, among the 256 code points of \<^typ>\<open>char\<close>.\<close>

definition is_space :: "char \<Rightarrow> bool" where
  "is_space c = (of_char c \<in> {9, 10, 11, 12, 13, 28, 29, 30, 31, 32, 133, 160 :: nat})"

text \<open>\<^verbatim>\<open>s.strip()\<close>\<close>

definition strip :: "string \<Rightarrow> string" where
  "strip s = rev (dropWhile is_space (rev (dropWhile is_space s)))"

text \<open>\<^verbatim>\<open>s.split()\<close>: maximal runs of non-space characters; \<open>cur\<close> is the run being read.\<close>

fun split_acc :: "string \<Rightarrow> string \<Rightarrow> string list" where
  "split_acc cur [] = (if cur = [] then [] else [cur])"
| "split_acc cur (c # cs) =
     (if is_space c then (if cur = [] then split_acc [] cs else cur # split_acc [] cs)
      else split_acc (cur @ [c]) cs)"

definition split_ws :: "string \<Rightarrow> string list" where
  "split_ws s = split_acc [] s"

text \<open>\<^verbatim>\<open>s.split('\n')\<close>: always at least one piece.\<close>

fun split_nl_acc :: "string \<Rightarrow> string \<Rightarrow> string list" where
  "split_nl_acc cur [] = [cur]"
| "split_nl_acc cur (c # cs) =
     (if c = CHR 0x0A then cur # split_nl_acc [] cs else split_nl_acc (cur @ [c]) cs)"

definition split_nl :: "string \<Rightarrow> string list" where
  "split_nl s = split_nl_acc [] s"

text \<open>\<^verbatim>\<open>' '.join(ws)\<close>\<close>

fun join_sp :: "string list \<Rightarrow> string" where
  "join_sp [] = []"
| "join_sp [w] = w"
| "join_sp (w # v # ws) = w @ CHR '' '' # join_sp (v # ws)"

subsection \<open>The note pattern\<close>

text \<open>
  \<^verbatim>\<open>_NOTE_RE = re.compile(r'\[\[(.+?)\]\]')\<close>. After the two opening brackets the lazy
  group takes one character and then as few more as possible until two closing brackets
  follow; the dot does not match a newline. \<open>lazy_body\<close> reads what follows the first
  character of the group and returns the rest of the group with the text after the match.
\<close>

fun lazy_body :: "string \<Rightarrow> (string \<times> string) option" where
  "lazy_body (c # d # cs) =
     (if c = CHR '']'' \<and> d = CHR '']'' then Some ([], cs)
      else if c = CHR 0x0A then None
      else map_option (\<lambda>(g, r). (c # g, r)) (lazy_body (d # cs)))"
| "lazy_body cs = None"

text \<open>A match that starts at the first character: the group and the text after the match.\<close>

fun note_match_at :: "string \<Rightarrow> (string \<times> string) option" where
  "note_match_at (a # b # x # cs) =
     (if a = CHR ''['' \<and> b = CHR ''['' \<and> x \<noteq> CHR 0x0A
      then map_option (\<lambda>(g, r). (x # g, r)) (lazy_body cs) else None)"
| "note_match_at cs = None"

text \<open>\<^verbatim>\<open>_NOTE_RE.search(raw)\<close>, giving \<^verbatim>\<open>group(1)\<close> of the leftmost match.\<close>

fun note_search :: "string \<Rightarrow> string option" where
  "note_search [] = None"
| "note_search (c # cs) =
     (case note_match_at (c # cs) of Some (g, r) \<Rightarrow> Some g | None \<Rightarrow> note_search cs)"

lemma lazy_body_shorter: "lazy_body cs = Some (g, r) \<Longrightarrow> length r < length cs"
  by (induction cs arbitrary: g r rule: lazy_body.induct) (auto split: if_splits)

lemma note_match_at_shorter: "note_match_at cs = Some (g, r) \<Longrightarrow> length r < length cs"
  by (cases cs rule: note_match_at.cases) (auto split: if_splits dest: lazy_body_shorter)

text \<open>\<^verbatim>\<open>_NOTE_RE.sub('', raw)\<close>: every match, left to right, is removed.\<close>

function note_sub :: "string \<Rightarrow> string" where
  "note_sub [] = []"
| "note_sub (c # cs) =
     (case note_match_at (c # cs) of
        Some (g, r) \<Rightarrow> note_sub r
      | None \<Rightarrow> c # note_sub cs)"
  by pat_completeness auto
termination
  by (relation "measure length") (auto dest: note_match_at_shorter)

subsection \<open>Font metrics and word positions\<close>

text \<open>
  What the code reads from a \<^verbatim>\<open>QFontMetrics\<close>. Qt is outside the repository, so the
  metrics of a font (family, size) are a parameter \<open>qfm\<close> of the operations that build one.
\<close>

record font_metrics =
  lineSpacing :: int
  ascent :: int
  horizontalAdvance :: "string \<Rightarrow> int"

text \<open>
  A fixed-pitch font for the examples: every character advances \<open>adv\<close> pixels and the raw
  line spacing is \<open>ls\<close>, whatever the family and size.
\<close>

definition fixed_qfm :: "int \<Rightarrow> int \<Rightarrow> string \<Rightarrow> int \<Rightarrow> font_metrics" where
  "fixed_qfm adv ls family sz =
     \<lparr>lineSpacing = ls, ascent = ls, horizontalAdvance = (\<lambda>w. adv * int (length w))\<rparr>"

datatype align = AlignLeft | AlignHCenter | AlignRight

text \<open>\<^verbatim>\<open>_line_x(line_w, align, win_w, margin=40)\<close>; \<^verbatim>\<open>>> 1\<close> is floor division by two.\<close>

definition line_x :: "int \<Rightarrow> align \<Rightarrow> int \<Rightarrow> int" where
  "line_x line_w al win_w =
     (if al = AlignHCenter then max 0 ((win_w - line_w) div 2)
      else if al = AlignRight then max 0 (win_w - 40 - line_w)
      else 40)"

text \<open>The \<^verbatim>\<open>total\<close> of \<^verbatim>\<open>_word_xs\<close>: word widths plus one space between neighbours.\<close>

definition words_total :: "font_metrics \<Rightarrow> int \<Rightarrow> string list \<Rightarrow> int" where
  "words_total fm sp_w ws =
     sum_list (map (horizontalAdvance fm) ws) + sp_w * (int (length ws) - 1)"

text \<open>The loop of \<^verbatim>\<open>_word_xs\<close>: each word with its x, then x advances past word and space.\<close>

fun word_xs_loop :: "font_metrics \<Rightarrow> int \<Rightarrow> int \<Rightarrow> string list \<Rightarrow> (string \<times> int) list" where
  "word_xs_loop fm sp_w x [] = []"
| "word_xs_loop fm sp_w x (w # ws) =
     (w, x) # word_xs_loop fm sp_w (x + horizontalAdvance fm w + sp_w) ws"

definition word_xs :: "string list \<Rightarrow> font_metrics \<Rightarrow> int \<Rightarrow> align \<Rightarrow> int \<Rightarrow> (string \<times> int) list" where
  "word_xs ws fm sp_w al win_w =
     word_xs_loop fm sp_w (line_x (words_total fm sp_w ws) al win_w) ws"

subsection \<open>Parsing and wrapping\<close>

text \<open>
  The four accumulators of \<^verbatim>\<open>_ensure_layout\<close>: \<^verbatim>\<open>lines\<close>, \<^verbatim>\<open>wxs\<close>, \<^verbatim>\<open>pauses\<close> and
  \<^verbatim>\<open>notes\<close> (here \<open>notes_m\<close>, a map from line index to note text).
\<close>

record layout =
  lines :: "string list"
  wxs :: "(string \<times> int) list list"
  pauses :: "int set"
  notes_m :: "int \<rightharpoonup> string"

definition PAUSE_TAG :: string where
  "PAUSE_TAG = ''[PAUSE]''"

text \<open>
  The inner loop \<^verbatim>\<open>for word in para.split()\<close>, with the words still to read, the
  accumulator \<^verbatim>\<open>cur_ws\<close> and its width \<^verbatim>\<open>cur_w\<close>. It returns the last accumulator with
  the layout.
\<close>

fun wrap_loop ::
  "font_metrics \<Rightarrow> int \<Rightarrow> align \<Rightarrow> int \<Rightarrow> int \<Rightarrow> string list \<Rightarrow> string list \<Rightarrow> int \<Rightarrow> layout
     \<Rightarrow> string list \<times> layout" where
  "wrap_loop fm sp_w al W mw [] cur_ws cur_w L = (cur_ws, L)"
| "wrap_loop fm sp_w al W mw (word # rest) cur_ws cur_w L =
     (let ww = horizontalAdvance fm word;
          needed = (if cur_ws = [] then ww else sp_w + ww)
      in if cur_w + needed \<le> mw
         then wrap_loop fm sp_w al W mw rest (cur_ws @ [word]) (cur_w + needed) L
         else wrap_loop fm sp_w al W mw rest [word] ww
                (if cur_ws \<noteq> []
                 then L\<lparr>lines := lines L @ [join_sp cur_ws],
                        wxs := wxs L @ [word_xs cur_ws fm sp_w al W]\<rparr>
                 else L))"

text \<open>The \<^verbatim>\<open>else\<close> branch of the paragraph: the loop, then the flush of what is left.\<close>

definition wrap_para ::
  "font_metrics \<Rightarrow> int \<Rightarrow> align \<Rightarrow> int \<Rightarrow> int \<Rightarrow> string \<Rightarrow> layout \<Rightarrow> layout" where
  "wrap_para fm sp_w al W mw para L =
     (case wrap_loop fm sp_w al W mw (split_ws para) [] 0 L of
        (cur_ws, L') \<Rightarrow>
          if cur_ws \<noteq> []
          then L'\<lparr>lines := lines L' @ [join_sp cur_ws],
                  wxs := wxs L' @ [word_xs cur_ws fm sp_w al W]\<rparr>
          else L')"

text \<open>The body of \<^verbatim>\<open>for raw in self.text.split('\n')\<close>.\<close>

definition layout_raw ::
  "font_metrics \<Rightarrow> int \<Rightarrow> align \<Rightarrow> int \<Rightarrow> int \<Rightarrow> layout \<Rightarrow> string \<Rightarrow> layout" where
  "layout_raw fm sp_w al W mw L raw =
     (let note = map_option strip (note_search raw);
          para = strip (note_sub raw);
          fi = int (length (lines L));
          L1 = (if para = [] then L\<lparr>lines := lines L @ [[]], wxs := wxs L @ [[]]\<rparr>
                else if para = PAUSE_TAG
                then L\<lparr>lines := lines L @ [PAUSE_TAG], wxs := wxs L @ [[]],
                       pauses := insert (int (length (lines L))) (pauses L)\<rparr>
                else wrap_para fm sp_w al W mw para L)
      in case note of
           None \<Rightarrow> L1
         | Some n \<Rightarrow> L1\<lparr>notes_m := (notes_m L1)(fi \<mapsto> n)\<rparr>)"

definition empty_layout :: layout where
  "empty_layout = \<lparr>lines = [], wxs = [], pauses = {}, notes_m = Map.empty\<rparr>"

text \<open>The whole loop over the lines of the script, from empty accumulators.\<close>

definition build_layout ::
  "font_metrics \<Rightarrow> int \<Rightarrow> align \<Rightarrow> int \<Rightarrow> string \<Rightarrow> layout" where
  "build_layout fm sp_w al W txt =
     foldl (layout_raw fm sp_w al W (W - 80)) empty_layout (split_nl txt)"

subsection \<open>The window state\<close>

text \<open>
  The fields of \<^verbatim>\<open>TeleprompterWindow\<close> that the engine reads or writes. \<open>text_str\<close> is
  \<^verbatim>\<open>self.text\<close>, \<open>win_w\<close> is \<^verbatim>\<open>self.width()\<close>, \<open>mic_stream\<close> holds the threshold that
  the audio callback of a running stream has captured.
\<close>

type_synonym font_key_t = "string \<times> int \<times> real"

record tp_state =
  text_str :: string
  scroll_y :: real
  is_playing :: bool
  speed :: real
  font_family :: string
  font_size :: int
  line_spacing_factor :: real
  text_align :: align
  win_w :: int
  countdown_secs :: int
  cd_val :: "int option"
  auto_speed_enabled :: bool
  mic_threshold :: real
  mic_smooth :: real
  mic_target :: real
  mic_stream :: "real option"
  font_key :: "font_key_t option"
  f_fm :: "font_metrics option"
  f_asc :: int
  f_line_h :: int
  f_sp_w :: int
  layout_key :: "(string \<times> int \<times> font_key_t \<times> align) option"
  l_lines :: "string list"
  l_word_xs :: "(string \<times> int) list list"
  l_pause :: "int set"
  l_notes :: "int \<rightharpoonup> string"
  l_total :: real
  prog_frame :: int
  last_fl :: int

text \<open>The state that \<^verbatim>\<open>__init__\<close> leaves, with its \<^verbatim>\<open>resize(920, 560)\<close>.\<close>

definition init_state :: tp_state where
  "init_state = \<lparr>
     text_str = [], scroll_y = 0, is_playing = False, speed = 2,
     font_family = ''Arial'', font_size = 48, line_spacing_factor = 1.2,
     text_align = AlignLeft, win_w = 920, countdown_secs = 3, cd_val = None,
     auto_speed_enabled = False, mic_threshold = 0.025, mic_smooth = 0, mic_target = 0,
     mic_stream = None, font_key = None, f_fm = None, f_asc = 0, f_line_h = 1, f_sp_w = 8,
     layout_key = None, l_lines = [], l_word_xs = [], l_pause = {}, l_notes = Map.empty,
     l_total = 0, prog_frame = 0, last_fl = - 1\<rparr>"

datatype error = AttributeError | TypeError

subsection \<open>The two caches\<close>

text \<open>\<^verbatim>\<open>_ensure_font\<close>: rebuilt only when family, size or spacing changed.\<close>

definition ensure_font :: "(string \<Rightarrow> int \<Rightarrow> font_metrics) \<Rightarrow> tp_state \<Rightarrow> tp_state" where
  "ensure_font qfm s =
     (let key = (font_family s, font_size s, line_spacing_factor s)
      in if Some key = font_key s then s
         else let fm = qfm (font_family s) (font_size s);
                  lh = max 1 (py_int (real_of_int (lineSpacing fm) * line_spacing_factor s))
              in s\<lparr>f_fm := Some fm, f_asc := ascent fm, f_line_h := lh,
                   f_sp_w := horizontalAdvance fm '' '', font_key := Some key,
                   layout_key := None\<rparr>)"

text \<open>
  The test \<^verbatim>\<open>key == self._layout_key\<close> of \<^verbatim>\<open>_ensure_layout\<close>, made on the state that
  \<^verbatim>\<open>_ensure_font\<close> returns.
\<close>

definition layout_hit :: "tp_state \<Rightarrow> bool" where
  "layout_hit s =
     (case font_key s of
        None \<Rightarrow> False
      | Some fk \<Rightarrow> layout_key s = Some (text_str s, win_w s, fk, text_align s))"

text \<open>Some line of the script reaches the wrapper, where its first word is measured.\<close>

definition measures_word :: "string \<Rightarrow> bool" where
  "measures_word txt =
     list_ex (\<lambda>raw. strip (note_sub raw) \<noteq> [] \<and> strip (note_sub raw) \<noteq> PAUSE_TAG)
       (split_nl txt)"

definition no_metrics :: font_metrics where
  "no_metrics = \<lparr>lineSpacing = 0, ascent = 0, horizontalAdvance = (\<lambda>w. 0)\<rparr>"

text \<open>The assignments at the end of \<^verbatim>\<open>_ensure_layout\<close>.\<close>

definition store_layout :: "layout \<Rightarrow> tp_state \<Rightarrow> tp_state" where
  "store_layout L s =
     s\<lparr>l_lines := lines L, l_word_xs := wxs L, l_pause := pauses L, l_notes := notes_m L,
       l_total := real_of_int (int (length (lines L)) * f_line_h s),
       layout_key := map_option (\<lambda>fk. (text_str s, win_w s, fk, text_align s)) (font_key s)\<rparr>"

text \<open>
  \<^verbatim>\<open>_ensure_layout\<close>. \<^verbatim>\<open>self._f_fm\<close> is \<^verbatim>\<open>None\<close> until \<^verbatim>\<open>_ensure_font\<close> has built a
  font; measuring a word with it then raises \<^verbatim>\<open>AttributeError\<close>. A script with no word
  to measure is laid out without reading the metrics.
\<close>

definition ensure_layout ::
  "(string \<Rightarrow> int \<Rightarrow> font_metrics) \<Rightarrow> tp_state \<Rightarrow> error + tp_state" where
  "ensure_layout qfm s =
     (let s1 = ensure_font qfm s
      in if layout_hit s1 then Inr s1
         else case f_fm s1 of
                None \<Rightarrow>
                  if measures_word (text_str s1) then Inl AttributeError
                  else Inr (store_layout
                         (build_layout no_metrics (f_sp_w s1) (text_align s1) (win_w s1)
                            (text_str s1)) s1)
              | Some fm \<Rightarrow>
                  Inr (store_layout
                    (build_layout fm (f_sp_w s1) (text_align s1) (win_w s1) (text_str s1)) s1))"

text \<open>\<^verbatim>\<open>invalidate_layout\<close>, and \<^verbatim>\<open>resizeEvent\<close> with the new width.\<close>

definition invalidate_layout :: "tp_state \<Rightarrow> tp_state" where
  "invalidate_layout s = s\<lparr>font_key := None, layout_key := None\<rparr>"

definition resizeEvent :: "int \<Rightarrow> tp_state \<Rightarrow> tp_state" where
  "resizeEvent w s = s\<lparr>win_w := w, layout_key := None\<rparr>"

text \<open>\<^verbatim>\<open>ControlPanel._on_font\<close>, the font size slider (16 to 120).\<close>

definition on_font :: "int \<Rightarrow> tp_state \<Rightarrow> tp_state" where
  "on_font v s = invalidate_layout (s\<lparr>font_size := v\<rparr>)"

subsection \<open>Speed and playback operations\<close>

text \<open>\<^verbatim>\<open>_speed_up\<close>, \<^verbatim>\<open>_speed_dn\<close>, and the slider slot \<^verbatim>\<open>ControlPanel._on_speed\<close>.\<close>

definition speed_up :: "tp_state \<Rightarrow> tp_state" where
  "speed_up s = s\<lparr>speed := min (speed s + 0.5) 20.0\<rparr>"

definition speed_dn :: "tp_state \<Rightarrow> tp_state" where
  "speed_dn s = s\<lparr>speed := max (speed s - 0.5) 0.5\<rparr>"

definition on_speed :: "int \<Rightarrow> tp_state \<Rightarrow> tp_state" where
  "on_speed v s = s\<lparr>speed := real_of_int v / 2.0\<rparr>"

definition set_text :: "string \<Rightarrow> tp_state \<Rightarrow> tp_state" where
  "set_text txt s = s\<lparr>text_str := txt, scroll_y := 0, layout_key := None\<rparr>"

definition start_countdown :: "tp_state \<Rightarrow> tp_state" where
  "start_countdown s = s\<lparr>cd_val := Some (countdown_secs s)\<rparr>"

definition begin_play :: "tp_state \<Rightarrow> tp_state" where
  "begin_play s = s\<lparr>is_playing := True\<rparr>"

definition do_pause :: "tp_state \<Rightarrow> tp_state" where
  "do_pause s = s\<lparr>is_playing := False\<rparr>"

definition toggle_play :: "tp_state \<Rightarrow> tp_state" where
  "toggle_play s =
     (if cd_val s \<noteq> None then s\<lparr>cd_val := None\<rparr>
      else if \<not> is_playing s
      then (if countdown_secs s > 0 then start_countdown s else begin_play s)
      else do_pause s)"

definition reset :: "tp_state \<Rightarrow> tp_state" where
  "reset s = s\<lparr>cd_val := None, scroll_y := 0, is_playing := False, last_fl := - 1\<rparr>"

text \<open>\<^verbatim>\<open>_cd_tick\<close>; with no countdown value, \<^verbatim>\<open>None - 1\<close> raises \<^verbatim>\<open>TypeError\<close>.\<close>

definition cd_tick :: "tp_state \<Rightarrow> error + tp_state" where
  "cd_tick s =
     (case cd_val s of
        None \<Rightarrow> Inl TypeError
      | Some n \<Rightarrow>
          if n - 1 \<le> 0 then Inr (begin_play (s\<lparr>cd_val := None\<rparr>))
          else Inr (s\<lparr>cd_val := Some (n - 1)\<rparr>))"

subsection \<open>Microphone\<close>

text \<open>
  \<^verbatim>\<open>start_mic\<close> when the audio library is there and the stream opens: the callback keeps
  the threshold of that moment. \<open>mic_cb\<close> is the callback \<^verbatim>\<open>cb\<close> on a block whose root
  mean square is \<open>rms\<close>; it runs only while the stream does.
\<close>

definition start_mic :: "tp_state \<Rightarrow> tp_state" where
  "start_mic s = (if mic_stream s \<noteq> None then s else s\<lparr>mic_stream := Some (mic_threshold s)\<rparr>)"

definition stop_mic :: "tp_state \<Rightarrow> tp_state" where
  "stop_mic s = s\<lparr>mic_stream := None\<rparr>"

definition mic_cb :: "real \<Rightarrow> tp_state \<Rightarrow> tp_state" where
  "mic_cb rms s =
     (case mic_stream s of
        None \<Rightarrow> s
      | Some thr \<Rightarrow> s\<lparr>mic_target := (if rms > thr then speed s else 0.0)\<rparr>)"

text \<open>\<^verbatim>\<open>ControlPanel._on_mic\<close>, the check box that turns auto-speed on and off.\<close>

definition on_mic :: "bool \<Rightarrow> tp_state \<Rightarrow> tp_state" where
  "on_mic v s =
     (if v then start_mic (s\<lparr>auto_speed_enabled := v\<rparr>)
      else stop_mic (s\<lparr>auto_speed_enabled := v\<rparr>))"

subsection \<open>The scroll tick\<close>

text \<open>
  The first half of \<^verbatim>\<open>_scroll_step\<close>, up to the advance of \<^verbatim>\<open>scroll_y\<close>; \<open>elapsed\<close> is
  what \<^verbatim>\<open>self._elapsed.restart()\<close> returns, in milliseconds.
\<close>

definition advance :: "int \<Rightarrow> tp_state \<Rightarrow> tp_state" where
  "advance elapsed s =
     (let dt_ms = max 1 (min elapsed 100);
          s1 = (if auto_speed_enabled s
                then s\<lparr>mic_smooth := mic_smooth s + 0.10 * (mic_target s - mic_smooth s)\<rparr>
                else s);
          eff = (if auto_speed_enabled s then max 0.0 (mic_smooth s1) else speed s)
      in s1\<lparr>scroll_y := scroll_y s1 + (eff / 16.667) * real_of_int dt_ms\<rparr>)"

text \<open>
  The second half, on the state with a current layout: the pause and note check when the
  focus line changes (with its early return), the clamp at the end of the content, and the
  throttle counter.
\<close>

definition after_layout :: "tp_state \<Rightarrow> tp_state" where
  "after_layout s =
     (let lh = f_line_h s;
          total = l_total s;
          fl = py_int (scroll_y s / real_of_int lh)
      in if lh > 0 \<and> fl \<noteq> last_fl s \<and> fl \<in> l_pause s
         then do_pause (s\<lparr>last_fl := fl, scroll_y := real_of_int (fl * lh)\<rparr>)
         else
           let s1 = (if lh > 0 \<and> fl \<noteq> last_fl s then s\<lparr>last_fl := fl\<rparr> else s);
               s2 = (if scroll_y s1 \<ge> total
                     then s1\<lparr>scroll_y := total, is_playing := False\<rparr> else s1)
           in s2\<lparr>prog_frame := (if prog_frame s2 + 1 \<ge> 8 then 0 else prog_frame s2 + 1)\<rparr>)"

definition scroll_step ::
  "(string \<Rightarrow> int \<Rightarrow> font_metrics) \<Rightarrow> int \<Rightarrow> tp_state \<Rightarrow> error + tp_state" where
  "scroll_step qfm elapsed s =
     (case ensure_layout qfm (advance elapsed s) of
        Inl e \<Rightarrow> Inl e
      | Inr s1 \<Rightarrow> Inr (after_layout s1))"

text \<open>
  The scroll timer calls \<^verbatim>\<open>_scroll_step\<close> once per timeout; \<open>ticks\<close> runs one call for
  each elapsed time of the list and stops at the first exception.
\<close>

fun ticks ::
  "(string \<Rightarrow> int \<Rightarrow> font_metrics) \<Rightarrow> int list \<Rightarrow> tp_state \<Rightarrow> error + tp_state" where
  "ticks qfm [] s = Inr s"
| "ticks qfm (e # es) s =
     (case scroll_step qfm e s of Inl x \<Rightarrow> Inl x | Inr s' \<Rightarrow> ticks qfm es s')"

subsection \<open>Keyboard and wheel\<close>

datatype key = Key_Space | Key_Return | Key_Up | Key_Down | Key_Left | Key_Right
  | Key_R | Key_Escape | Key_Other

definition keyPressEvent :: "key \<Rightarrow> tp_state \<Rightarrow> tp_state" where
  "keyPressEvent k s =
     (if k = Key_Space \<or> k = Key_Return then toggle_play s
      else if k = Key_Up then speed_up s
      else if k = Key_Down then speed_dn s
      else if k = Key_Left then s\<lparr>scroll_y := max 0.0 (scroll_y s - 80)\<rparr>
      else if k = Key_Right then s\<lparr>scroll_y := scroll_y s + 80\<rparr>
      else if k = Key_R \<or> k = Key_Escape then reset s
      else s)"

definition wheelEvent :: "int \<Rightarrow> tp_state \<Rightarrow> tp_state" where
  "wheelEvent dy s = (if dy > 0 then speed_up s else speed_dn s)"

subsection \<open>The paint loop's line range\<close>

text \<open>
  From \<^verbatim>\<open>paintEvent\<close>: the indices \<^verbatim>\<open>range(first_i, last_i)\<close> for a window of height \<open>H\<close>
  with the focus at \<open>focus_y\<close>, and the test that sends a line to the word-highlight path.
\<close>

definition first_i :: "int \<Rightarrow> tp_state \<Rightarrow> int" where
  "first_i focus_y s =
     max 0 ((- (focus_y - py_int (scroll_y s)) - f_line_h s * 2) div f_line_h s)"

definition last_i :: "int \<Rightarrow> int \<Rightarrow> tp_state \<Rightarrow> int" where
  "last_i H focus_y s =
     min (int (length (l_lines s)))
       (first_i focus_y s + (H + f_line_h s * 4) div f_line_h s + 1)"

definition painted :: "int \<Rightarrow> int \<Rightarrow> tp_state \<Rightarrow> int list" where
  "painted H focus_y s = [first_i focus_y s .. last_i H focus_y s - 1]"

definition highlight_path :: "bool \<Rightarrow> bool \<Rightarrow> (string \<times> int) list \<Rightarrow> bool" where
  "highlight_path word_highlight at_focus wxl = (word_highlight \<and> at_focus \<and> wxl \<noteq> [])"

subsection \<open>What a finished layout satisfies\<close>

text \<open>
  A display line with its word offsets: either no offsets, and then the line is empty or
  the pause tag, or the line is its words joined by spaces, no word is empty, and a line of
  two or more words is at most \<open>mw\<close> wide.
\<close>

definition line_ok :: "font_metrics \<Rightarrow> int \<Rightarrow> int \<Rightarrow> string \<Rightarrow> (string \<times> int) list \<Rightarrow> bool" where
  "line_ok fm sp_w mw line wl =
     (if wl = [] then line = [] \<or> line = PAUSE_TAG
      else line = join_sp (map fst wl) \<and> [] \<notin> set (map fst wl) \<and>
           (2 \<le> length wl \<longrightarrow> words_total fm sp_w (map fst wl) \<le> mw))"

definition layout_inv :: "font_metrics \<Rightarrow> int \<Rightarrow> int \<Rightarrow> layout \<Rightarrow> bool" where
  "layout_inv fm sp_w mw L =
     (list_all2 (line_ok fm sp_w mw) (lines L) (wxs L) \<and>
      (\<forall>i \<in> pauses L. 0 \<le> i \<and> nat i < length (lines L) \<and> wxs L ! nat i = []))"

subsection \<open>Example states and the font invariant\<close>

text \<open>
  \<^verbatim>\<open>_f_fm\<close> is read only after \<^verbatim>\<open>_ensure_font\<close>; it is there whenever a font key is.
  The invariant holds initially, and the two caches and the tick keep it.
\<close>

definition font_ok :: "tp_state \<Rightarrow> bool" where
  "font_ok s = (font_key s = None \<or> f_fm s \<noteq> None)"

text \<open>A four-line script being played, and a window listening to a loud microphone.\<close>

definition script4 :: string where
  "script4 = ''a\<newline>b\<newline>c\<newline>d''"

definition playing4 :: tp_state where
  "playing4 = begin_play (set_text script4 init_state)"

definition listening :: tp_state where
  "listening = mic_cb 1 (on_mic True init_state)"

text \<open>
  The smallest window, 640 wide, with a pause line, an empty line and words that do not fit
  on one line.
\<close>

definition script_wrap :: string where
  "script_wrap = ''alpha beta gamma\<newline>[PAUSE]\<newline>\<newline>incomprehensibilities''"

definition narrow :: tp_state where
  "narrow = resizeEvent 640 (set_text script_wrap init_state)"

text \<open>The script of the note scenario, and the smallest window with the largest font.\<close>

definition script_note :: string where
  "script_note = ''Note here [[remember this]]\<newline>more text''"

definition cramped :: tp_state where
  "cramped = on_font 120 (resizeEvent 640 (set_text script_note init_state))"

text \<open>
  A script with a pause line, played at the highest slider speed with the countdown
  spinner at 0; and the four-line script laid out in an idle window.
\<close>

definition script_pause :: string where
  "script_pause = ''one\<newline>[PAUSE]\<newline>three\<newline>four''"

definition fast_play :: tp_state where
  "fast_play =
     toggle_play ((on_speed 40 (set_text script_pause init_state))\<lparr>countdown_secs := 0\<rparr>)"

definition idle4 :: tp_state where
  "idle4 = set_text script4 init_state"

section \<open>Properties\<close>

subsection \<open>Alpha fade table\<close>

lemma py_int_three_quarters: "py_int (real d * 0.75) = (3 * int d) div 4"
proof -
  have "real d * 0.75 = real_of_int (3 * int d) / real_of_int 4" by simp
  then have "\<lfloor>real d * 0.75\<rfloor> = (3 * int d) div 4"
    by (simp only: floor_divide_of_int_eq)
  then show ?thesis by (simp add: py_int_def)
qed

lemma ALPHA_LUT_nth: "d < 512 \<Longrightarrow> ALPHA_LUT ! d = max 0 (255 - py_int (real d * 0.75))"
  unfolding ALPHA_LUT_def by (simp del: upt_Suc)

lemma length_ALPHA_LUT: "length ALPHA_LUT = 512"
  by (simp add: ALPHA_LUT_def)

text \<open>
  C2, as amended. For every distance \<open>d\<close> below 512 the table entry is
  \<open>max 0 (255 - int (d * 0.75))\<close> with Python's truncating \<^verbatim>\<open>int\<close>, that is
  \<open>max 0 (255 - 3 * d div 4)\<close>; it is 0 from 340 on and positive below 340.
\<close>

theorem alpha_lut_truncates:
  "d < 512 \<Longrightarrow>
     ALPHA_LUT ! d = max 0 (255 - py_int (real d * 0.75)) \<and>
     ALPHA_LUT ! d = max 0 (255 - (3 * int d) div 4) \<and>
     (340 \<le> d \<longrightarrow> ALPHA_LUT ! d = 0) \<and>
     (d < 340 \<longrightarrow> 0 < ALPHA_LUT ! d)"
proof -
  assume d: "d < 512"
  have e: "ALPHA_LUT ! d = max 0 (255 - (3 * int d) div 4)"
    using ALPHA_LUT_nth [OF d] by (simp only: py_int_three_quarters)
  have z: "340 \<le> d \<longrightarrow> ALPHA_LUT ! d = 0" unfolding e by linarith
  have p: "d < 340 \<longrightarrow> 0 < ALPHA_LUT ! d" unfolding e by linarith
  from ALPHA_LUT_nth [OF d] e z p show ?thesis by blast
qed

theorem alpha_lut_truncates_witness:
  "(340::nat) < 512 \<and> ALPHA_LUT ! 340 = 0 \<and> ALPHA_LUT ! 339 = 1 \<and> ALPHA_LUT ! 0 = 255"
  using alpha_lut_truncates [of 340] alpha_lut_truncates [of 339] alpha_lut_truncates [of 0]
  by simp

text \<open>
  C2 as stated fails at distance 1: the table holds 255, the rounded formula gives 254.
\<close>

theorem alpha_lut_not_rounded:
  "ALPHA_LUT ! 1 = 255 \<and> spec_alpha 1 = 254 \<and> ALPHA_LUT ! 1 \<noteq> spec_alpha 1"
  by (simp add: ALPHA_LUT_nth py_int_def spec_alpha_def round_def)

subsection \<open>What each part of the tick leaves alone\<close>

lemma advance_mic:
  "auto_speed_enabled s \<Longrightarrow>
     mic_smooth (advance e s) = mic_smooth s + 0.10 * (mic_target s - mic_smooth s)"
  by (simp add: advance_def Let_def)

lemma advance_keeps:
  "mic_target (advance e s) = mic_target s" "auto_speed_enabled (advance e s) = auto_speed_enabled s"
  "speed (advance e s) = speed s" "\<not> auto_speed_enabled s \<Longrightarrow> mic_smooth (advance e s) = mic_smooth s"
  by (simp_all add: advance_def Let_def)

lemma ensure_font_keeps:
  "mic_target (ensure_font q s) = mic_target s" "mic_smooth (ensure_font q s) = mic_smooth s"
  "auto_speed_enabled (ensure_font q s) = auto_speed_enabled s" "speed (ensure_font q s) = speed s"
  "scroll_y (ensure_font q s) = scroll_y s" "last_fl (ensure_font q s) = last_fl s"
  "is_playing (ensure_font q s) = is_playing s" "text_str (ensure_font q s) = text_str s"
  "win_w (ensure_font q s) = win_w s" "text_align (ensure_font q s) = text_align s"
  "prog_frame (ensure_font q s) = prog_frame s"
  by (simp_all add: ensure_font_def Let_def)

lemma store_layout_keeps:
  "mic_target (store_layout L s) = mic_target s" "mic_smooth (store_layout L s) = mic_smooth s"
  "auto_speed_enabled (store_layout L s) = auto_speed_enabled s" "speed (store_layout L s) = speed s"
  "scroll_y (store_layout L s) = scroll_y s" "last_fl (store_layout L s) = last_fl s"
  "is_playing (store_layout L s) = is_playing s" "prog_frame (store_layout L s) = prog_frame s"
  "f_line_h (store_layout L s) = f_line_h s"
  by (simp_all add: store_layout_def)

lemma ensure_layout_hit:
  "layout_hit (ensure_font q s) \<Longrightarrow> ensure_layout q s = Inr (ensure_font q s)"
  by (simp add: ensure_layout_def)

lemma ensure_layout_miss:
  assumes "ensure_layout q s = Inr s'" "\<not> layout_hit (ensure_font q s)"
  shows "s' = store_layout
           (build_layout (case f_fm (ensure_font q s) of None \<Rightarrow> no_metrics | Some fm \<Rightarrow> fm)
              (f_sp_w (ensure_font q s)) (text_align (ensure_font q s)) (win_w (ensure_font q s))
              (text_str (ensure_font q s)))
           (ensure_font q s)"
  using assms unfolding ensure_layout_def Let_def
  by (cases "f_fm (ensure_font q s)") (auto split: if_splits)

lemma ensure_layout_cases:
  assumes "ensure_layout q s = Inr s'"
  obtains "s' = ensure_font q s" "layout_hit (ensure_font q s)"
  | L where "s' = store_layout L (ensure_font q s)" "\<not> layout_hit (ensure_font q s)"
proof (cases "layout_hit (ensure_font q s)")
  case True
  with assms that(1) show ?thesis by (simp add: ensure_layout_hit)
next
  case False
  from ensure_layout_miss [OF assms False] that(2) False show ?thesis by blast
qed

lemma ensure_layout_keeps:
  assumes "ensure_layout q s = Inr s'"
  shows "mic_target s' = mic_target s" "mic_smooth s' = mic_smooth s"
   "auto_speed_enabled s' = auto_speed_enabled s" "speed s' = speed s"
   "scroll_y s' = scroll_y s" "last_fl s' = last_fl s" "is_playing s' = is_playing s"
   "prog_frame s' = prog_frame s"
  using assms by (auto elim!: ensure_layout_cases simp: ensure_font_keeps store_layout_keeps)

lemma after_layout_keeps:
  "mic_target (after_layout s) = mic_target s" "mic_smooth (after_layout s) = mic_smooth s"
  "auto_speed_enabled (after_layout s) = auto_speed_enabled s" "speed (after_layout s) = speed s"
  by (simp_all add: after_layout_def Let_def do_pause_def)

lemma scroll_step_cases:
  assumes "scroll_step q e s = Inr s'"
  obtains s1 where "ensure_layout q (advance e s) = Inr s1" "s' = after_layout s1"
  using assms unfolding scroll_step_def by (cases "ensure_layout q (advance e s)") simp_all

lemma scroll_step_mic:
  assumes "scroll_step q e s = Inr s'"
  shows "mic_target s' = mic_target s" "auto_speed_enabled s' = auto_speed_enabled s"
    "speed s' = speed s"
    "auto_speed_enabled s \<Longrightarrow> mic_smooth s' = mic_smooth s + 0.10 * (mic_target s - mic_smooth s)"
    "\<not> auto_speed_enabled s \<Longrightarrow> mic_smooth s' = mic_smooth s"
  using assms
  by (auto elim!: scroll_step_cases simp: after_layout_keeps ensure_layout_keeps advance_keeps advance_mic)

lemma ticks_mic:
  "ticks q es s = Inr s' \<Longrightarrow> auto_speed_enabled s \<Longrightarrow>
     auto_speed_enabled s' \<and> mic_target s' = mic_target s \<and>
     mic_smooth s' = mic_target s + (9 / 10) ^ length es * (mic_smooth s - mic_target s)"
proof (induction es arbitrary: s)
  case Nil
  then show ?case by simp
next
  case (Cons e es)
  from Cons.prems(1) obtain s1 where st: "scroll_step q e s = Inr s1" and r: "ticks q es s1 = Inr s'"
    by (cases "scroll_step q e s") simp_all
  have a1: "auto_speed_enabled s1" and t1: "mic_target s1 = mic_target s"
    and m1: "mic_smooth s1 = mic_smooth s + 0.10 * (mic_target s - mic_smooth s)"
    using scroll_step_mic [OF st] Cons.prems(2) by simp_all
  have d: "mic_smooth s1 - mic_target s = 9 / 10 * (mic_smooth s - mic_target s)"
    unfolding m1 by (simp add: field_simps)
  from Cons.IH [OF r a1] have "auto_speed_enabled s'" "mic_target s' = mic_target s"
    "mic_smooth s' = mic_target s + (9 / 10) ^ length es * (mic_smooth s1 - mic_target s)"
    by (simp_all add: t1)
  then show ?case unfolding d by simp
qed

subsection \<open>Evaluation rules for the examples\<close>

lemmas layout_eval = build_layout_def split_nl_def layout_raw_def strip_def is_space_def
  empty_layout_def PAUSE_TAG_def wrap_para_def split_ws_def fixed_qfm_def word_xs_def Let_def
  words_total_def line_x_def

lemmas state_eval = ensure_layout_def ensure_font_def layout_hit_def store_layout_def
  init_state_def py_int_def measures_word_def

lemmas tick_eval = scroll_step_def advance_def after_layout_def do_pause_def

subsection \<open>The tick returns\<close>

lemma font_key_ensure_font:
  "font_key (ensure_font q s) = Some (font_family s, font_size s, line_spacing_factor s)"
  by (cases "Some (font_family s, font_size s, line_spacing_factor s) = font_key s")
    (simp_all add: ensure_font_def Let_def)

lemma font_ok_ensure_font: "font_ok s \<Longrightarrow> f_fm (ensure_font q s) \<noteq> None"
  by (cases "Some (font_family s, font_size s, line_spacing_factor s) = font_key s")
    (auto simp: ensure_font_def Let_def font_ok_def)

lemma ensure_layout_total:
  assumes "font_ok s"
  shows "\<exists>s'. ensure_layout q s = Inr s' \<and> font_ok s'"
proof -
  from font_ok_ensure_font [OF assms, of q]
  obtain fm where fm: "f_fm (ensure_font q s) = Some fm" by auto
  then have ok: "font_ok (ensure_font q s)" by (simp add: font_ok_def)
  show ?thesis
  proof (cases "layout_hit (ensure_font q s)")
    case True
    with ok show ?thesis by (simp add: ensure_layout_def)
  next
    case False
    with fm show ?thesis by (simp add: ensure_layout_def font_ok_def store_layout_def Let_def)
  qed
qed

lemma font_ok_after_layout: "font_ok (after_layout s) = font_ok s"
  by (simp add: after_layout_def font_ok_def Let_def do_pause_def)

lemma font_ok_advance: "font_ok (advance e s) = font_ok s"
  by (simp add: advance_def font_ok_def Let_def)

lemma scroll_step_total:
  assumes "font_ok s"
  shows "\<exists>s'. scroll_step q e s = Inr s' \<and> font_ok s'"
proof -
  from ensure_layout_total [of "advance e s" q] assms
  obtain s1 where "ensure_layout q (advance e s) = Inr s1" "font_ok s1"
    by (auto simp: font_ok_advance)
  then show ?thesis by (simp add: scroll_step_def font_ok_after_layout)
qed

lemma ticks_total: "font_ok s \<Longrightarrow> \<exists>s'. ticks q es s = Inr s' \<and> font_ok s'"
proof (induction es arbitrary: s)
  case Nil
  then show ?case by simp
next
  case (Cons e es)
  from scroll_step_total [OF Cons.prems, of q e]
  obtain s1 where s1: "scroll_step q e s = Inr s1" "font_ok s1" by blast
  from Cons.IH [OF s1(2)] s1(1) show ?case by simp
qed

lemma font_ok_init: "font_ok init_state"
  by (simp add: font_ok_def init_state_def)

subsection \<open>Frame-rate independence\<close>


lemma after_layout_playing:
  "is_playing (after_layout s) \<Longrightarrow> scroll_y (after_layout s) = scroll_y s \<and> is_playing s"
  by (auto simp: after_layout_def Let_def do_pause_def split: if_splits)

lemma advance_manual:
  "\<not> auto_speed_enabled s \<Longrightarrow>
     scroll_y (advance e s) = scroll_y s + speed s / 16.667 * real_of_int (max 1 (min e 100))"
  by (simp add: advance_def Let_def)

lemma advance_playing: "is_playing (advance e s) = is_playing s"
  by (simp add: advance_def Let_def)

lemma scroll_step_playing:
  assumes "scroll_step q e s = Inr s'" "is_playing s'" "\<not> auto_speed_enabled s"
  shows "scroll_y s' = scroll_y s + speed s / 16.667 * real_of_int (max 1 (min e 100))"
    and "is_playing s"
proof -
  from assms(1) obtain s1 where l: "ensure_layout q (advance e s) = Inr s1" and s': "s' = after_layout s1"
    by (rule scroll_step_cases)
  from after_layout_playing assms(2) s' have "scroll_y s' = scroll_y s1" "is_playing s1" by auto
  with ensure_layout_keeps(5,7) [OF l] advance_manual [OF assms(3)] advance_playing
  show "scroll_y s' = scroll_y s + speed s / 16.667 * real_of_int (max 1 (min e 100))"
    and "is_playing s" by auto
qed

text \<open>
  C3. With auto-speed off, when neither the one tick of 32 ms nor any of the two ticks of
  16 ms pauses or reaches the end of the content (each leaves the window playing), the two
  runs end at the same \<open>scroll_y\<close>, the start plus \<open>speed / 16.667 * 32\<close>. Floats are
  reals here, so the equality is exact.
\<close>

theorem frame_rate_independent:
  assumes "\<not> auto_speed_enabled s"
    and "scroll_step q 32 s = Inr a" and "is_playing a"
    and "scroll_step q 16 s = Inr b1" and "is_playing b1"
    and "scroll_step q 16 b1 = Inr b2" and "is_playing b2"
  shows "scroll_y b2 = scroll_y a \<and> scroll_y a = scroll_y s + speed s / 16.667 * 32"
proof -
  have a: "scroll_y a = scroll_y s + speed s / 16.667 * 32"
    using scroll_step_playing(1) [OF assms(2,3,1)] by simp
  have b1: "scroll_y b1 = scroll_y s + speed s / 16.667 * 16"
    using scroll_step_playing(1) [OF assms(4,5,1)] by simp
  have m: "\<not> auto_speed_enabled b1" "speed b1 = speed s"
    using scroll_step_mic(2,3) [OF assms(4)] assms(1) by simp_all
  have b2: "scroll_y b2 = scroll_y b1 + speed s / 16.667 * 16"
    using scroll_step_playing(1) [OF assms(6,7) m(1)] m(2) by simp
  from a b1 b2 show ?thesis by simp
qed

lemma playing4_tick32:
  "case scroll_step (fixed_qfm 10 40) 32 playing4 of Inl x \<Rightarrow> False | Inr a \<Rightarrow> is_playing a"
  by (simp add: playing4_def script4_def begin_play_def set_text_def tick_eval state_eval layout_eval)

lemma playing4_tick16:
  "case scroll_step (fixed_qfm 10 40) 16 playing4 of Inl x \<Rightarrow> False
   | Inr b1 \<Rightarrow> is_playing b1 \<and>
       (case scroll_step (fixed_qfm 10 40) 16 b1 of Inl x \<Rightarrow> False | Inr b2 \<Rightarrow> is_playing b2)"
  by (simp add: playing4_def script4_def begin_play_def set_text_def tick_eval state_eval layout_eval)

theorem frame_rate_independent_witness:
  "\<exists>a b1 b2. \<not> auto_speed_enabled playing4 \<and>
      scroll_step (fixed_qfm 10 40) 32 playing4 = Inr a \<and> is_playing a \<and>
      scroll_step (fixed_qfm 10 40) 16 playing4 = Inr b1 \<and> is_playing b1 \<and>
      scroll_step (fixed_qfm 10 40) 16 b1 = Inr b2 \<and> is_playing b2 \<and>
      scroll_y b2 = scroll_y a \<and> scroll_y a = 64000 / 16667"
proof -
  have n: "\<not> auto_speed_enabled playing4" and y: "scroll_y playing4 = 0" and v: "speed playing4 = 2"
    by (simp_all add: playing4_def begin_play_def set_text_def init_state_def)
  from playing4_tick32 obtain a where a: "scroll_step (fixed_qfm 10 40) 32 playing4 = Inr a" "is_playing a"
    by (cases "scroll_step (fixed_qfm 10 40) 32 playing4") simp_all
  from playing4_tick16 obtain b1 where b1: "scroll_step (fixed_qfm 10 40) 16 playing4 = Inr b1" "is_playing b1"
    and r: "case scroll_step (fixed_qfm 10 40) 16 b1 of Inl x \<Rightarrow> False | Inr b2 \<Rightarrow> is_playing b2"
    by (cases "scroll_step (fixed_qfm 10 40) 16 playing4") simp_all
  from r obtain b2 where b2: "scroll_step (fixed_qfm 10 40) 16 b1 = Inr b2" "is_playing b2"
    by (cases "scroll_step (fixed_qfm 10 40) 16 b1") simp_all
  from frame_rate_independent [OF n a b1 b2] y v
  have "scroll_y b2 = scroll_y a \<and> scroll_y a = 64000 / 16667" by simp
  with n a b1 b2 show ?thesis by blast
qed

subsection \<open>Auto-speed smoothing\<close>

text \<open>
  C7. With auto-speed on and the target left alone, after any run of ticks the smoothed
  speed is \<open>target + 0.9 ^ n * (start - target)\<close>; the next tick adds
  \<open>0.10 * (target - smoothed)\<close>, so the change is never more than
  \<open>0.10 * \<bar>target - smoothed\<bar>\<close>, the value moves toward the target without passing
  it, strictly while it differs from it. The audio callback sets the target to the manual
  speed when the amplitude is above the threshold and to 0 otherwise.
\<close>

theorem smooth_moves_toward_target:
  assumes "auto_speed_enabled s" and "ticks q es s = Inr s'" and "scroll_step q e s' = Inr s''"
  shows "mic_target s'' = mic_target s \<and>
    mic_smooth s' = mic_target s + (9 / 10) ^ length es * (mic_smooth s - mic_target s) \<and>
    mic_smooth s'' = mic_smooth s' + 0.10 * (mic_target s - mic_smooth s') \<and>
    \<bar>mic_smooth s'' - mic_smooth s'\<bar> \<le> 0.10 * \<bar>mic_target s - mic_smooth s'\<bar> \<and>
    (mic_smooth s \<le> mic_target s \<longrightarrow>
       mic_smooth s' \<le> mic_smooth s'' \<and> mic_smooth s'' \<le> mic_target s) \<and>
    (mic_target s \<le> mic_smooth s \<longrightarrow>
       mic_target s \<le> mic_smooth s'' \<and> mic_smooth s'' \<le> mic_smooth s') \<and>
    (mic_smooth s < mic_target s \<longrightarrow> mic_smooth s' < mic_smooth s'') \<and>
    (mic_target s < mic_smooth s \<longrightarrow> mic_smooth s'' < mic_smooth s') \<and>
    (\<forall>thr rms. mic_stream s = Some thr \<longrightarrow>
       mic_target (mic_cb rms s) = (if thr < rms then speed s else 0))"
proof -
  let ?T = "mic_target s"
  let ?p = "(9 / 10 :: real) ^ length es"
  from ticks_mic [OF assms(2,1)]
  have a: "auto_speed_enabled s'" and t: "mic_target s' = ?T"
    and m: "mic_smooth s' = ?T + ?p * (mic_smooth s - ?T)" by simp_all
  from scroll_step_mic [OF assms(3)] a t
  have t2: "mic_target s'' = ?T"
    and m2: "mic_smooth s'' = mic_smooth s' + 0.10 * (?T - mic_smooth s')" by simp_all
  have m2': "mic_smooth s'' = mic_smooth s' + (?T - mic_smooth s') / 10"
    using m2 by simp
  have p0: "0 < ?p" by simp
  have le: "mic_smooth s \<le> ?T \<Longrightarrow> mic_smooth s' \<le> ?T"
    unfolding m using p0 by (simp add: mult_le_0_iff)
  have ge: "?T \<le> mic_smooth s \<Longrightarrow> ?T \<le> mic_smooth s'"
    unfolding m using p0 by simp
  have lt: "mic_smooth s < ?T \<Longrightarrow> mic_smooth s' < ?T"
    unfolding m using p0 by (simp add: mult_less_0_iff)
  have gt: "?T < mic_smooth s \<Longrightarrow> ?T < mic_smooth s'"
    unfolding m using p0 by simp
  have c: "\<forall>thr rms. mic_stream s = Some thr \<longrightarrow>
       mic_target (mic_cb rms s) = (if thr < rms then speed s else 0)"
    by (simp add: mic_cb_def)
  have ab: "\<bar>mic_smooth s'' - mic_smooth s'\<bar> \<le> 0.10 * \<bar>?T - mic_smooth s'\<bar>"
    unfolding m2 by (simp add: abs_mult)
  have c5: "mic_smooth s \<le> ?T \<longrightarrow> mic_smooth s' \<le> mic_smooth s'' \<and> mic_smooth s'' \<le> ?T"
  proof
    assume h: "mic_smooth s \<le> ?T"
    from le [OF h] m2' have "mic_smooth s' \<le> mic_smooth s''" by argo
    moreover from le [OF h] m2' have "mic_smooth s'' \<le> ?T" by argo
    ultimately show "mic_smooth s' \<le> mic_smooth s'' \<and> mic_smooth s'' \<le> ?T" by simp
  qed
  have c6: "?T \<le> mic_smooth s \<longrightarrow> ?T \<le> mic_smooth s'' \<and> mic_smooth s'' \<le> mic_smooth s'"
  proof
    assume h: "?T \<le> mic_smooth s"
    from ge [OF h] m2' have "?T \<le> mic_smooth s''" by argo
    moreover from ge [OF h] m2' have "mic_smooth s'' \<le> mic_smooth s'" by argo
    ultimately show "?T \<le> mic_smooth s'' \<and> mic_smooth s'' \<le> mic_smooth s'" by simp
  qed
  have c7: "mic_smooth s < ?T \<longrightarrow> mic_smooth s' < mic_smooth s''"
  proof
    assume "mic_smooth s < ?T"
    from lt [OF this] m2' show "mic_smooth s' < mic_smooth s''" by argo
  qed
  have c8: "?T < mic_smooth s \<longrightarrow> mic_smooth s'' < mic_smooth s'"
  proof
    assume "?T < mic_smooth s"
    from gt [OF this] m2' show "mic_smooth s'' < mic_smooth s'" by argo
  qed
  from t2 m m2 ab c5 c6 c7 c8 c show ?thesis by blast
qed

lemma listening_facts:
  "auto_speed_enabled listening" "mic_smooth listening = 0" "mic_target listening = 2"
  "speed listening = 2" "mic_stream listening = Some 0.025" "font_ok listening"
  by (simp_all add: listening_def mic_cb_def on_mic_def start_mic_def init_state_def font_ok_def)

theorem smooth_moves_toward_target_witness:
  "\<exists>s' s''. auto_speed_enabled listening \<and>
      ticks (fixed_qfm 10 40) [16, 16] listening = Inr s' \<and>
      scroll_step (fixed_qfm 10 40) 16 s' = Inr s'' \<and>
      mic_target s'' = 2 \<and> mic_smooth s' = 19 / 50 \<and> mic_smooth s'' = 271 / 500 \<and>
      mic_smooth s' < mic_smooth s'' \<and> mic_smooth s'' \<le> 2 \<and>
      mic_target (mic_cb 0 listening) = 0 \<and> mic_target (mic_cb 1 listening) = 2"
proof -
  let ?q = "fixed_qfm 10 40"
  from ticks_total [OF listening_facts(6), of ?q "[16, 16]"]
  obtain s' where s': "ticks ?q [16, 16] listening = Inr s'" "font_ok s'" by blast
  from scroll_step_total [OF s'(2), of ?q 16]
  obtain s'' where s'': "scroll_step ?q 16 s' = Inr s''" by blast
  note th = smooth_moves_toward_target [OF listening_facts(1) s'(1) s'']
  from th have t: "mic_target s'' = 2" by (simp add: listening_facts)
  from th have "mic_smooth s' = 2 + (9 / 10) ^ length [16, 16 :: int] * (0 - 2)"
    by (simp only: listening_facts)
  then have m1: "mic_smooth s' = 19 / 50" by (simp add: power2_eq_square)
  from th have "mic_smooth s'' = mic_smooth s' + 0.10 * (2 - mic_smooth s')"
    by (simp only: listening_facts)
  then have m2: "mic_smooth s'' = 271 / 500" unfolding m1 by simp
  from th have "\<forall>thr rms. mic_stream listening = Some thr \<longrightarrow>
       mic_target (mic_cb rms listening) = (if thr < rms then speed listening else 0)"
    by blast
  with listening_facts(5) have
    cb: "\<And>rms. mic_target (mic_cb rms listening) = (if 0.025 < rms then speed listening else 0)"
    by blast
  have c0: "mic_target (mic_cb 0 listening) = 0" and c1: "mic_target (mic_cb 1 listening) = 2"
    unfolding cb by (simp_all add: listening_facts)
  from m1 m2 have o: "mic_smooth s' < mic_smooth s''" "mic_smooth s'' \<le> 2" by simp_all
  from listening_facts(1) s'(1) s'' t m1 m2 o c0 c1 show ?thesis by blast
qed

subsection \<open>Manual speed\<close>

text \<open>
  C9. The manual speed is written by \<^verbatim>\<open>_speed_up\<close>, \<^verbatim>\<open>_speed_dn\<close> and the slider slot
  \<^verbatim>\<open>_on_speed\<close>, which only the speed slider calls, with a value of its range 1 to 40.
  From every starting speed, an increment that would pass 20.0 results in 20.0 and a
  decrement that would pass 0.5 results in 0.5; \<^verbatim>\<open>_speed_up\<close> never gives more than 20.0
  and \<^verbatim>\<open>_speed_dn\<close> never less than 0.5; from a speed in the range both stay in the
  range. The slot stores half the slider value, which is in the range for every value the
  slider has.
\<close>

theorem speed_ops_range:
  "speed (speed_up s) \<le> 20 \<and>
   0.5 \<le> speed (speed_dn s) \<and>
   (20 < speed s + 0.5 \<longrightarrow> speed (speed_up s) = 20) \<and>
   (speed s - 0.5 < 0.5 \<longrightarrow> speed (speed_dn s) = 0.5) \<and>
   (0.5 \<le> speed s \<and> speed s \<le> 20 \<longrightarrow>
      0.5 \<le> speed (speed_up s) \<and> speed (speed_up s) \<le> 20 \<and>
      0.5 \<le> speed (speed_dn s) \<and> speed (speed_dn s) \<le> 20) \<and>
   speed (on_speed v s) = real_of_int v / 2 \<and>
   (1 \<le> v \<and> v \<le> 40 \<longrightarrow> 0.5 \<le> speed (on_speed v s) \<and> speed (on_speed v s) \<le> 20)"
  by (simp add: speed_up_def speed_dn_def on_speed_def)

theorem speed_ops_range_witness:
  "speed (speed_up (on_speed 40 init_state)) = 20 \<and>
   speed (speed_dn (on_speed 1 init_state)) = 0.5 \<and>
   speed (speed_up init_state) = 2.5 \<and> speed (speed_dn init_state) = 1.5"
  using speed_ops_range [of "on_speed 40 init_state" 40]
    speed_ops_range [of "on_speed 1 init_state" 1]
    speed_ops_range [of init_state 4]
  by (simp add: speed_up_def speed_dn_def on_speed_def init_state_def)

subsection \<open>The layout cache\<close>

lemma ensure_font_hit:
  "font_key s = Some (font_family s, font_size s, line_spacing_factor s) \<Longrightarrow> ensure_font q s = s"
  by (simp add: ensure_font_def)

lemma layout_hit_font:
  assumes "layout_hit (ensure_font q s)"
  shows "ensure_font q s = s"
proof (cases "Some (font_family s, font_size s, line_spacing_factor s) = font_key s")
  case True
  then show ?thesis by (simp add: ensure_font_def)
next
  case False
  then have "layout_key (ensure_font q s) = None" by (simp add: ensure_font_def Let_def)
  with assms show ?thesis by (simp add: layout_hit_def split: option.splits)
qed

lemma store_layout_hit:
  assumes "font_key s = Some (font_family s, font_size s, line_spacing_factor s)"
  shows "layout_hit (store_layout L s)"
    and "font_key (store_layout L s) =
      Some (font_family (store_layout L s), font_size (store_layout L s),
            line_spacing_factor (store_layout L s))"
  using assms by (simp_all add: layout_hit_def store_layout_def)

lemma ensure_font_fields:
  "font_family (ensure_font q s) = font_family s" "font_size (ensure_font q s) = font_size s"
  "line_spacing_factor (ensure_font q s) = line_spacing_factor s"
  by (simp_all add: ensure_font_def Let_def)

lemma ensure_layout_result_hit:
  assumes "ensure_layout q s = Inr s'"
  shows "layout_hit s'"
    and "font_key s' = Some (font_family s', font_size s', line_spacing_factor s')"
proof -
  let ?s1 = "ensure_font q s"
  have k: "font_key ?s1 = Some (font_family ?s1, font_size ?s1, line_spacing_factor ?s1)"
    by (simp add: font_key_ensure_font ensure_font_fields)
  from assms show "layout_hit s'"
    by (rule ensure_layout_cases) (simp_all add: store_layout_hit(1) [OF k])
  from assms show "font_key s' = Some (font_family s', font_size s', line_spacing_factor s')"
    by (rule ensure_layout_cases) (simp_all add: store_layout_hit(2) [OF k] k)
qed

text \<open>
  C6. When the key (text, width, font key, alignment) is the stored layout key and the
  font key is current, \<^verbatim>\<open>_ensure_layout\<close> returns the state as it is: lines, word
  offsets, pause set, note map and total height are untouched. After any call that
  returns, the key is the stored one, so a second call is a cache hit and returns the same
  state again: of two calls in succession only the first can re-wrap.
\<close>

theorem ensure_layout_idempotent:
  "(font_key s = Some (font_family s, font_size s, line_spacing_factor s) \<and>
    layout_key s =
      Some (text_str s, win_w s, (font_family s, font_size s, line_spacing_factor s),
            text_align s)
    \<longrightarrow> ensure_layout q s = Inr s) \<and>
   (ensure_layout q s = Inr s' \<longrightarrow>
      layout_hit (ensure_font q s') \<and> ensure_layout q s' = Inr s')"
proof (intro conjI impI)
  assume h: "font_key s = Some (font_family s, font_size s, line_spacing_factor s) \<and>
    layout_key s =
      Some (text_str s, win_w s, (font_family s, font_size s, line_spacing_factor s),
            text_align s)"
  then have f: "ensure_font q s = s" by (simp add: ensure_font_hit)
  from h have "layout_hit s" by (simp add: layout_hit_def)
  with f show "ensure_layout q s = Inr s" by (simp add: ensure_layout_def)
next
  assume r: "ensure_layout q s = Inr s'"
  from ensure_layout_result_hit [OF r] have f: "ensure_font q s' = s'" and h: "layout_hit s'"
    by (simp_all add: ensure_font_hit)
  from f h show "layout_hit (ensure_font q s')" by simp
  from f h show "ensure_layout q s' = Inr s'" by (simp add: ensure_layout_def)
qed

lemma playing4_layout:
  "case ensure_layout (fixed_qfm 10 40) playing4 of Inl x \<Rightarrow> False
   | Inr s' \<Rightarrow> l_lines s' = [''a'', ''b'', ''c'', ''d''] \<and> l_total s' = 192 \<and> s' \<noteq> playing4"
  by (simp add: playing4_def script4_def begin_play_def set_text_def state_eval layout_eval)

theorem ensure_layout_idempotent_witness:
  "\<exists>s'. ensure_layout (fixed_qfm 10 40) playing4 = Inr s' \<and> s' \<noteq> playing4 \<and>
      l_lines s' = [''a'', ''b'', ''c'', ''d''] \<and>
      layout_hit (ensure_font (fixed_qfm 10 40) s') \<and>
      ensure_layout (fixed_qfm 10 40) s' = Inr s' \<and>
      font_key s' = Some (font_family s', font_size s', line_spacing_factor s') \<and>
      layout_key s' =
        Some (text_str s', win_w s', (font_family s', font_size s', line_spacing_factor s'),
              text_align s')"
proof -
  let ?q = "fixed_qfm 10 40"
  from playing4_layout obtain s' where s': "ensure_layout ?q playing4 = Inr s'"
    and l: "l_lines s' = [''a'', ''b'', ''c'', ''d'']" "s' \<noteq> playing4"
    by (cases "ensure_layout ?q playing4") simp_all
  from ensure_layout_idempotent [of s' ?q s'] ensure_layout_idempotent [of playing4 ?q s'] s'
  have h: "layout_hit (ensure_font ?q s')" "ensure_layout ?q s' = Inr s'" by simp_all
  from ensure_layout_result_hit [OF s'] have
    k: "font_key s' = Some (font_family s', font_size s', line_spacing_factor s')"
    and "layout_hit s'" by simp_all
  then have "layout_key s' =
        Some (text_str s', win_w s', (font_family s', font_size s', line_spacing_factor s'),
              text_align s')" by (simp add: layout_hit_def)
  with s' l h k show ?thesis by blast
qed

subsection \<open>Words and lines\<close>

lemma map_fst_word_xs_loop: "map fst (word_xs_loop fm sp_w x ws) = ws"
  by (induction ws arbitrary: x) simp_all

lemma map_fst_word_xs: "map fst (word_xs ws fm sp_w al W) = ws"
  by (simp add: word_xs_def map_fst_word_xs_loop)

lemma word_xs_Nil: "word_xs ws fm sp_w al W = [] \<longleftrightarrow> ws = []"
  using map_fst_word_xs [of ws fm sp_w al W] by (cases ws) auto

lemma length_word_xs: "length (word_xs ws fm sp_w al W) = length ws"
  using map_fst_word_xs [of ws fm sp_w al W] by (metis length_map)

lemma words_total_single: "words_total fm sp_w [w] = horizontalAdvance fm w"
  by (simp add: words_total_def)

lemma words_total_snoc:
  "ws \<noteq> [] \<Longrightarrow> words_total fm sp_w (ws @ [w]) = words_total fm sp_w ws + (sp_w + horizontalAdvance fm w)"
  by (simp add: words_total_def algebra_simps)

lemma split_acc_nonempty: "[] \<notin> set (split_acc cur s)"
  by (induction s arbitrary: cur) auto

lemma split_ws_nonempty: "[] \<notin> set (split_ws s)"
  by (simp add: split_ws_def split_acc_nonempty)

lemma split_acc_Nil: "split_acc cur s = [] \<longleftrightarrow> cur = [] \<and> (\<forall>c \<in> set s. is_space c)"
  by (induction s arbitrary: cur) auto

lemma strip_has_word:
  assumes "strip s \<noteq> []"
  shows "split_ws (strip s) \<noteq> []"
proof -
  let ?d = "dropWhile is_space (rev (dropWhile is_space s))"
  from assms have n: "?d \<noteq> []" by (simp add: strip_def)
  then have "\<not> is_space (hd ?d)" by (rule hd_dropWhile)
  moreover from n have "hd ?d \<in> set ?d" by simp
  ultimately have "\<exists>c \<in> set (strip s). \<not> is_space c" by (auto simp: strip_def)
  then show ?thesis by (auto simp: split_ws_def split_acc_Nil)
qed

lemma join_sp_Nil: "[] \<notin> set ws \<Longrightarrow> join_sp ws = [] \<longleftrightarrow> ws = []"
  by (induction ws rule: join_sp.induct) auto

subsection \<open>The wrapper\<close>

text \<open>
  The loop cuts the words it reads into groups, one per flushed line, and keeps the last
  group as its accumulator: a group is never empty, and one of two or more words is at
  most \<open>mw\<close> wide.
\<close>

lemma wrap_loop_groups:
  assumes "cur_ws = [] \<longrightarrow> cur_w = 0"
    and "cur_ws \<noteq> [] \<longrightarrow> cur_w = words_total fm sp_w cur_ws"
    and "2 \<le> length cur_ws \<longrightarrow> cur_w \<le> mw"
  shows "\<exists>new cur'.
     wrap_loop fm sp_w al W mw ws cur_ws cur_w L =
       (cur', L\<lparr>lines := lines L @ map join_sp new,
                wxs := wxs L @ map (\<lambda>g. word_xs g fm sp_w al W) new\<rparr>) \<and>
     concat new @ cur' = cur_ws @ ws \<and>
     (\<forall>g \<in> set new. g \<noteq> [] \<and> (2 \<le> length g \<longrightarrow> words_total fm sp_w g \<le> mw)) \<and>
     (2 \<le> length cur' \<longrightarrow> words_total fm sp_w cur' \<le> mw) \<and>
     (cur_ws \<noteq> [] \<or> ws \<noteq> [] \<longrightarrow> cur' \<noteq> [])"
  using assms
proof (induction ws arbitrary: cur_ws cur_w L)
  case Nil
  have "wrap_loop fm sp_w al W mw [] cur_ws cur_w L =
       (cur_ws, L\<lparr>lines := lines L @ map join_sp [],
                wxs := wxs L @ map (\<lambda>g. word_xs g fm sp_w al W) []\<rparr>)" by simp
  moreover have "concat [] @ cur_ws = cur_ws @ []" by simp
  moreover from Nil.prems(2,3) have "2 \<le> length cur_ws \<longrightarrow> words_total fm sp_w cur_ws \<le> mw"
    by auto
  ultimately show ?case by (intro exI [of _ "[]"] exI [of _ cur_ws]) simp
next
  case (Cons word rest)
  let ?ww = "horizontalAdvance fm word"
  let ?needed = "if cur_ws = [] then ?ww else sp_w + ?ww"
  let ?G = "\<lambda>new. \<forall>g \<in> set new. g \<noteq> [] \<and> (2 \<le> length g \<longrightarrow> words_total fm sp_w g \<le> mw)"
  let ?B = "\<lambda>cur'. 2 \<le> length cur' \<longrightarrow> words_total fm sp_w cur' \<le> mw"
  let ?X = "\<lambda>g. word_xs g fm sp_w al W"
  show ?case
  proof (cases "cur_w + ?needed \<le> mw")
    case True
    have w: "cur_w + ?needed = words_total fm sp_w (cur_ws @ [word])"
    proof (cases "cur_ws = []")
      case True
      with Cons.prems(1) show ?thesis by (simp add: words_total_single)
    next
      case False
      with Cons.prems(2) show ?thesis by (simp add: words_total_snoc)
    qed
    have p1: "cur_ws @ [word] = [] \<longrightarrow> cur_w + ?needed = 0" by simp
    have p2: "cur_ws @ [word] \<noteq> [] \<longrightarrow> cur_w + ?needed = words_total fm sp_w (cur_ws @ [word])"
      using w by blast
    have p3: "2 \<le> length (cur_ws @ [word]) \<longrightarrow> cur_w + ?needed \<le> mw"
      using True by blast
    from Cons.IH [OF p1 p2 p3, of L]
    obtain new cur' where
      r: "wrap_loop fm sp_w al W mw rest (cur_ws @ [word]) (cur_w + ?needed) L =
       (cur', L\<lparr>lines := lines L @ map join_sp new, wxs := wxs L @ map ?X new\<rparr>)"
      and c: "concat new @ cur' = (cur_ws @ [word]) @ rest"
      and g: "?G new" and b: "?B cur'"
      and n: "cur_ws @ [word] \<noteq> [] \<or> rest \<noteq> [] \<longrightarrow> cur' \<noteq> []"
      by blast
    from True r have e: "wrap_loop fm sp_w al W mw (word # rest) cur_ws cur_w L =
       (cur', L\<lparr>lines := lines L @ map join_sp new, wxs := wxs L @ map ?X new\<rparr>)"
      by (simp add: Let_def)
    from c have c': "concat new @ cur' = cur_ws @ word # rest" by simp
    from n have n': "cur' \<noteq> []" by simp
    from e c' g b n' show ?thesis by blast
  next
    case False
    have p1: "[word] = [] \<longrightarrow> ?ww = 0" by simp
    have p2: "[word] \<noteq> [] \<longrightarrow> ?ww = words_total fm sp_w [word]"
      by (simp add: words_total_single)
    have p3: "2 \<le> length [word] \<longrightarrow> ?ww \<le> mw" by simp
    show ?thesis
    proof (cases "cur_ws = []")
      case True
      from Cons.IH [OF p1 p2 p3, of L]
      obtain new cur' where
        r: "wrap_loop fm sp_w al W mw rest [word] ?ww L =
         (cur', L\<lparr>lines := lines L @ map join_sp new, wxs := wxs L @ map ?X new\<rparr>)"
        and c: "concat new @ cur' = [word] @ rest"
        and g: "?G new" and b: "?B cur'"
        and n: "[word] \<noteq> [] \<or> rest \<noteq> [] \<longrightarrow> cur' \<noteq> []"
        by blast
      from False True r have e: "wrap_loop fm sp_w al W mw (word # rest) cur_ws cur_w L =
         (cur', L\<lparr>lines := lines L @ map join_sp new, wxs := wxs L @ map ?X new\<rparr>)"
        by (simp add: Let_def)
      from c True have c': "concat new @ cur' = cur_ws @ word # rest" by simp
      from n have n': "cur' \<noteq> []" by simp
      from e c' g b n' show ?thesis by blast
    next
      case ne: False
      let ?L1 = "L\<lparr>lines := lines L @ [join_sp cur_ws], wxs := wxs L @ [?X cur_ws]\<rparr>"
      from Cons.IH [OF p1 p2 p3, of ?L1]
      obtain new cur' where
        r: "wrap_loop fm sp_w al W mw rest [word] ?ww ?L1 =
         (cur', ?L1\<lparr>lines := lines ?L1 @ map join_sp new, wxs := wxs ?L1 @ map ?X new\<rparr>)"
        and c: "concat new @ cur' = [word] @ rest"
        and g: "?G new" and b: "?B cur'"
        and n: "[word] \<noteq> [] \<or> rest \<noteq> [] \<longrightarrow> cur' \<noteq> []"
        by blast
      have u: "?L1\<lparr>lines := lines ?L1 @ map join_sp new, wxs := wxs ?L1 @ map ?X new\<rparr> =
          L\<lparr>lines := lines L @ map join_sp (cur_ws # new),
            wxs := wxs L @ map ?X (cur_ws # new)\<rparr>"
        by simp
      from False ne r have e: "wrap_loop fm sp_w al W mw (word # rest) cur_ws cur_w L =
         (cur', L\<lparr>lines := lines L @ map join_sp (cur_ws # new),
            wxs := wxs L @ map ?X (cur_ws # new)\<rparr>)"
        unfolding u [symmetric] by (simp add: Let_def)
      from c have c': "concat (cur_ws # new) @ cur' = cur_ws @ word # rest" by simp
      from g ne Cons.prems(2,3) have g': "?G (cur_ws # new)" by simp
      from n have n': "cur' \<noteq> []" by simp
      from e c' g' b n' show ?thesis by blast
    qed
  qed
qed

lemma wrap_para_groups:
  "\<exists>gs. wrap_para fm sp_w al W mw para L =
       L\<lparr>lines := lines L @ map join_sp gs,
         wxs := wxs L @ map (\<lambda>g. word_xs g fm sp_w al W) gs\<rparr> \<and>
     concat gs = split_ws para \<and>
     (\<forall>g \<in> set gs. g \<noteq> [] \<and> (2 \<le> length g \<longrightarrow> words_total fm sp_w g \<le> mw))"
proof -
  let ?X = "\<lambda>g. word_xs g fm sp_w al W"
  let ?G = "\<lambda>new. \<forall>g \<in> set new. g \<noteq> [] \<and> (2 \<le> length g \<longrightarrow> words_total fm sp_w g \<le> mw)"
  have p1: "([]::string list) = [] \<longrightarrow> (0::int) = 0" by simp
  have p2: "([]::string list) \<noteq> [] \<longrightarrow> (0::int) = words_total fm sp_w []" by simp
  have p3: "2 \<le> length ([]::string list) \<longrightarrow> (0::int) \<le> mw" by simp
  from wrap_loop_groups [OF p1 p2 p3, of al W "split_ws para" L]
  obtain new cur' where
    r: "wrap_loop fm sp_w al W mw (split_ws para) [] 0 L =
       (cur', L\<lparr>lines := lines L @ map join_sp new, wxs := wxs L @ map ?X new\<rparr>)"
    and c: "concat new @ cur' = [] @ split_ws para"
    and g: "?G new"
    and b: "2 \<le> length cur' \<longrightarrow> words_total fm sp_w cur' \<le> mw"
    by blast
  show ?thesis
  proof (cases "cur' = []")
    case True
    with r have "wrap_para fm sp_w al W mw para L =
       L\<lparr>lines := lines L @ map join_sp new, wxs := wxs L @ map ?X new\<rparr>"
      by (simp add: wrap_para_def)
    moreover from c True have "concat new = split_ws para" by simp
    ultimately show ?thesis using g by blast
  next
    case False
    with r have "wrap_para fm sp_w al W mw para L =
       L\<lparr>lines := lines L @ map join_sp (new @ [cur']),
         wxs := wxs L @ map ?X (new @ [cur'])\<rparr>"
      by (simp add: wrap_para_def)
    moreover from c have "concat (new @ [cur']) = split_ws para" by simp
    moreover from g b False have "?G (new @ [cur'])" by simp
    ultimately show ?thesis by blast
  qed
qed

subsection \<open>The layout invariant\<close>

lemma line_ok_group:
  assumes "g \<noteq> []" "[] \<notin> set g" "2 \<le> length g \<longrightarrow> words_total fm sp_w g \<le> mw"
  shows "line_ok fm sp_w mw (join_sp g) (word_xs g fm sp_w al W)"
  using assms by (simp add: line_ok_def word_xs_Nil map_fst_word_xs length_word_xs)

lemma line_ok_groups:
  assumes "\<forall>g \<in> set gs. g \<noteq> [] \<and> (2 \<le> length g \<longrightarrow> words_total fm sp_w g \<le> mw)"
    and "[] \<notin> set (concat gs)"
  shows "list_all2 (line_ok fm sp_w mw) (map join_sp gs) (map (\<lambda>g. word_xs g fm sp_w al W) gs)"
  using assms
proof (induction gs)
  case Nil
  then show ?case by simp
next
  case (Cons g gs)
  from Cons.prems have "line_ok fm sp_w mw (join_sp g) (word_xs g fm sp_w al W)"
    by (intro line_ok_group) auto
  moreover from Cons have
    "list_all2 (line_ok fm sp_w mw) (map join_sp gs) (map (\<lambda>g. word_xs g fm sp_w al W) gs)"
    by auto
  ultimately show ?case by simp
qed

lemma layout_inv_append:
  assumes "layout_inv fm sp_w mw L"
    and "list_all2 (line_ok fm sp_w mw) ls ws"
  shows "layout_inv fm sp_w mw (L\<lparr>lines := lines L @ ls, wxs := wxs L @ ws\<rparr>)"
proof -
  from assms(1) have a: "list_all2 (line_ok fm sp_w mw) (lines L) (wxs L)"
    and p: "\<forall>i \<in> pauses L. 0 \<le> i \<and> nat i < length (lines L) \<and> wxs L ! nat i = []"
    by (simp_all add: layout_inv_def)
  from a have len: "length (lines L) = length (wxs L)" by (rule list_all2_lengthD)
  from a assms(2) have "list_all2 (line_ok fm sp_w mw) (lines L @ ls) (wxs L @ ws)"
    by (rule list_all2_appendI)
  moreover from p len have
    "\<forall>i \<in> pauses L. 0 \<le> i \<and> nat i < length (lines L @ ls) \<and> (wxs L @ ws) ! nat i = []"
    by (auto simp: nth_append)
  ultimately show ?thesis by (simp add: layout_inv_def)
qed

lemma layout_inv_pause:
  assumes "layout_inv fm sp_w mw L"
  shows "layout_inv fm sp_w mw
           (L\<lparr>lines := lines L @ [PAUSE_TAG], wxs := wxs L @ [[]],
              pauses := insert (int (length (lines L))) (pauses L)\<rparr>)"
proof -
  have "list_all2 (line_ok fm sp_w mw) [PAUSE_TAG] [[]]" by (simp add: line_ok_def)
  from layout_inv_append [OF assms this]
  have i: "layout_inv fm sp_w mw (L\<lparr>lines := lines L @ [PAUSE_TAG], wxs := wxs L @ [[]]\<rparr>)" .
  from assms have "length (lines L) = length (wxs L)"
    by (auto simp: layout_inv_def dest: list_all2_lengthD)
  with i show ?thesis by (simp add: layout_inv_def nth_append)
qed

lemma layout_inv_notes:
  "layout_inv fm sp_w mw (L\<lparr>notes_m := n\<rparr>) = layout_inv fm sp_w mw L"
  by (simp add: layout_inv_def)

lemma layout_inv_raw:
  assumes "layout_inv fm sp_w mw L"
  shows "layout_inv fm sp_w mw (layout_raw fm sp_w al W mw L raw)"
proof -
  let ?para = "strip (note_sub raw)"
  let ?L1 = "if ?para = [] then L\<lparr>lines := lines L @ [[]], wxs := wxs L @ [[]]\<rparr>
                else if ?para = PAUSE_TAG
                then L\<lparr>lines := lines L @ [PAUSE_TAG], wxs := wxs L @ [[]],
                       pauses := insert (int (length (lines L))) (pauses L)\<rparr>
                else wrap_para fm sp_w al W mw ?para L"
  have "layout_inv fm sp_w mw ?L1"
  proof (cases "?para = []")
    case True
    have "list_all2 (line_ok fm sp_w mw) [[]] [[]]" by (simp add: line_ok_def)
    from layout_inv_append [OF assms this] True show ?thesis by simp
  next
    case ne: False
    show ?thesis
    proof (cases "?para = PAUSE_TAG")
      case True
      with ne layout_inv_pause [OF assms] show ?thesis by simp
    next
      case False
      from wrap_para_groups [of fm sp_w al W mw ?para L]
      obtain gs where
        r: "wrap_para fm sp_w al W mw ?para L =
             L\<lparr>lines := lines L @ map join_sp gs,
               wxs := wxs L @ map (\<lambda>g. word_xs g fm sp_w al W) gs\<rparr>"
        and c: "concat gs = split_ws ?para"
        and g: "\<forall>g \<in> set gs. g \<noteq> [] \<and> (2 \<le> length g \<longrightarrow> words_total fm sp_w g \<le> mw)"
        by blast
      from c have "[] \<notin> set (concat gs)" by (simp add: split_ws_nonempty)
      from layout_inv_append [OF assms line_ok_groups [OF g this]] r ne False
      show ?thesis by simp
    qed
  qed
  then show ?thesis
    by (cases "note_search raw") (simp_all add: layout_raw_def Let_def layout_inv_notes)
qed

lemma layout_inv_foldl:
  "layout_inv fm sp_w mw L \<Longrightarrow> layout_inv fm sp_w mw (foldl (layout_raw fm sp_w al W mw) L raws)"
  by (induction raws arbitrary: L) (simp_all add: layout_inv_raw)

lemma layout_inv_build: "layout_inv fm sp_w (W - 80) (build_layout fm sp_w al W txt)"
  unfolding build_layout_def
  by (rule layout_inv_foldl) (simp add: layout_inv_def empty_layout_def)

subsection \<open>The layout a rebuild stores\<close>

lemma ensure_layout_rebuilt:
  assumes "ensure_layout q s = Inr s'" and "\<not> layout_hit (ensure_font q s)"
  shows "\<exists>fm. (\<forall>fm'. f_fm s' = Some fm' \<longrightarrow> fm' = fm) \<and>
     l_lines s' = lines (build_layout fm (f_sp_w s') (text_align s') (win_w s') (text_str s')) \<and>
     l_word_xs s' = wxs (build_layout fm (f_sp_w s') (text_align s') (win_w s') (text_str s')) \<and>
     l_pause s' = pauses (build_layout fm (f_sp_w s') (text_align s') (win_w s') (text_str s')) \<and>
     l_notes s' = notes_m (build_layout fm (f_sp_w s') (text_align s') (win_w s') (text_str s')) \<and>
     l_total s' = real_of_int (int (length (l_lines s')) * f_line_h s')"
proof -
  let ?s1 = "ensure_font q s"
  let ?fm = "case f_fm ?s1 of None \<Rightarrow> no_metrics | Some fm \<Rightarrow> fm"
  let ?B = "build_layout ?fm (f_sp_w ?s1) (text_align ?s1) (win_w ?s1) (text_str ?s1)"
  from ensure_layout_miss [OF assms] have e: "s' = store_layout ?B ?s1" .
  have k: "f_fm s' = f_fm ?s1" "f_sp_w s' = f_sp_w ?s1" "text_align s' = text_align ?s1"
    "win_w s' = win_w ?s1" "text_str s' = text_str ?s1" "f_line_h s' = f_line_h ?s1"
    unfolding e by (simp_all add: store_layout_def)
  have l: "l_lines s' = lines ?B" "l_word_xs s' = wxs ?B" "l_pause s' = pauses ?B"
    "l_notes s' = notes_m ?B"
    "l_total s' = real_of_int (int (length (lines ?B)) * f_line_h ?s1)"
    unfolding e by (simp_all add: store_layout_def)
  have "\<forall>fm'. f_fm s' = Some fm' \<longrightarrow> fm' = ?fm" by (simp add: k(1))
  with l show ?thesis unfolding k(2-6) l(1) by blast
qed

subsection \<open>The wrap invariant\<close>

text \<open>
  C5. After a rebuild with font metrics \<open>fm\<close>, every entry of the word-offset list with two
  or more words has word widths plus spaces of at most the window width minus 80; an entry
  with words that is wider than that holds one word, itself wider than that.
\<close>

theorem wrap_invariant:
  assumes "ensure_layout q s = Inr s'" and "\<not> layout_hit (ensure_font q s)"
    and "f_fm s' = Some fm" and "wl \<in> set (l_word_xs s')"
  shows "(2 \<le> length wl \<longrightarrow> words_total fm (f_sp_w s') (map fst wl) \<le> win_w s' - 80) \<and>
    (wl \<noteq> [] \<and> win_w s' - 80 < words_total fm (f_sp_w s') (map fst wl) \<longrightarrow>
       (\<exists>w x. wl = [(w, x)] \<and> win_w s' - 80 < horizontalAdvance fm w))"
proof -
  let ?sp = "f_sp_w s'" and ?mw = "win_w s' - 80"
  let ?B = "build_layout fm ?sp (text_align s') (win_w s') (text_str s')"
  from ensure_layout_rebuilt [OF assms(1,2)] assms(3) have x: "l_word_xs s' = wxs ?B" by auto
  have "list_all2 (line_ok fm ?sp ?mw) (lines ?B) (wxs ?B)"
    using layout_inv_build [of fm ?sp "win_w s'"] by (simp add: layout_inv_def)
  with assms(4) x obtain line where ok: "line_ok fm ?sp ?mw line wl"
    by (auto simp: list_all2_conv_all_nth in_set_conv_nth)
  then have two: "2 \<le> length wl \<longrightarrow> words_total fm ?sp (map fst wl) \<le> ?mw"
    by (auto simp: line_ok_def split: if_splits)
  have one: "wl \<noteq> [] \<and> ?mw < words_total fm ?sp (map fst wl) \<longrightarrow>
       (\<exists>w x. wl = [(w, x)] \<and> ?mw < horizontalAdvance fm w)"
  proof
    assume h: "wl \<noteq> [] \<and> ?mw < words_total fm ?sp (map fst wl)"
    with two have "\<not> 2 \<le> length wl" by auto
    with h have "length wl = 1" by (cases wl) (simp_all add: not_le)
    then obtain w x where wl: "wl = [(w, x)]" by (cases wl) auto
    with h have "?mw < horizontalAdvance fm w" by (simp add: words_total_single)
    with wl show "\<exists>w x. wl = [(w, x)] \<and> ?mw < horizontalAdvance fm w" by blast
  qed
  from two one show ?thesis by blast
qed

lemma narrow_layout:
  "case ensure_layout (fixed_qfm 40 60) narrow of Inl x \<Rightarrow> False
   | Inr s' \<Rightarrow>
       l_lines s' = [''alpha beta'', ''gamma'', ''[PAUSE]'', [], ''incomprehensibilities''] \<and>
       l_word_xs s' =
         [[(''alpha'', 40), (''beta'', 280)], [(''gamma'', 40)], [], [],
          [(''incomprehensibilities'', 40)]] \<and>
       l_pause s' = {2} \<and> win_w s' = 640 \<and> f_sp_w s' = 40 \<and>
       f_fm s' = Some (fixed_qfm 40 60 ''Arial'' 48) \<and> f_line_h s' = 72 \<and> scroll_y s' = 0"
  by (simp add: narrow_def script_wrap_def resizeEvent_def set_text_def state_eval layout_eval)

lemma narrow_miss: "\<not> layout_hit (ensure_font (fixed_qfm 40 60) narrow)"
  by (simp add: narrow_def resizeEvent_def set_text_def state_eval Let_def)

theorem wrap_invariant_witness:
  "\<exists>s'. ensure_layout (fixed_qfm 40 60) narrow = Inr s' \<and>
      \<not> layout_hit (ensure_font (fixed_qfm 40 60) narrow) \<and>
      f_fm s' = Some (fixed_qfm 40 60 ''Arial'' 48) \<and>
      [(''alpha'', 40), (''beta'', 280)] \<in> set (l_word_xs s') \<and>
      [(''incomprehensibilities'', 40)] \<in> set (l_word_xs s') \<and>
      words_total (fixed_qfm 40 60 ''Arial'' 48) (f_sp_w s') [''alpha'', ''beta''] \<le> win_w s' - 80 \<and>
      win_w s' - 80 < horizontalAdvance (fixed_qfm 40 60 ''Arial'' 48) ''incomprehensibilities''"
proof -
  let ?q = "fixed_qfm 40 60"
  from narrow_layout obtain s' where s': "ensure_layout ?q narrow = Inr s'"
    and f: "f_fm s' = Some (?q ''Arial'' 48)"
    and x: "l_word_xs s' =
         [[(''alpha'', 40), (''beta'', 280)], [(''gamma'', 40)], [], [],
          [(''incomprehensibilities'', 40)]]"
    and w: "win_w s' = 640" "f_sp_w s' = 40"
    by (cases "ensure_layout ?q narrow") auto
  from x have m1: "[(''alpha'', 40), (''beta'', 280)] \<in> set (l_word_xs s')"
    and m2: "[(''incomprehensibilities'', 40)] \<in> set (l_word_xs s')" by simp_all
  from wrap_invariant [OF s' narrow_miss f m1]
  have a: "words_total (?q ''Arial'' 48) (f_sp_w s') [''alpha'', ''beta''] \<le> win_w s' - 80"
    by simp
  have "win_w s' - 80 < words_total (?q ''Arial'' 48) (f_sp_w s') (map fst [(''incomprehensibilities'', 40 :: int)])"
    by (simp add: w words_total_def fixed_qfm_def)
  with wrap_invariant [OF s' narrow_miss f m2]
  have b: "win_w s' - 80 < horizontalAdvance (?q ''Arial'' 48) ''incomprehensibilities''"
    by simp
  from s' narrow_miss f m1 m2 a b show ?thesis by blast
qed

subsection \<open>Lines and word offsets go together\<close>

lemma painted_bounds:
  "i \<in> set (painted H focus_y s) \<Longrightarrow> 0 \<le> i \<and> nat i < length (l_lines s)"
  by (auto simp: painted_def first_i_def last_i_def)

text \<open>
  C10. After a rebuild the line list and the word-offset list have the same length; every
  index of the pause set is an index of both and its word-offset entry is empty; every
  empty line has an empty word-offset entry. So every index the paint loop visits is an
  index of the word-offset list, and the test that opens the word-highlight path is false
  on a pause line and on an empty line.
\<close>

theorem lines_and_word_xs_agree:
  assumes "ensure_layout q s = Inr s'" and "\<not> layout_hit (ensure_font q s)"
  shows "length (l_lines s') = length (l_word_xs s') \<and>
    (\<forall>i \<in> l_pause s'. 0 \<le> i \<and> nat i < length (l_word_xs s') \<and> l_word_xs s' ! nat i = [] \<and>
        \<not> highlight_path wh af (l_word_xs s' ! nat i)) \<and>
    (\<forall>i < length (l_lines s'). l_lines s' ! i = [] \<longrightarrow>
        l_word_xs s' ! i = [] \<and> \<not> highlight_path wh af (l_word_xs s' ! i)) \<and>
    (\<forall>i \<in> set (painted H focus_y s'). 0 \<le> i \<and> nat i < length (l_word_xs s'))"
proof -
  from ensure_layout_rebuilt [OF assms] obtain fm where
    l: "l_lines s' = lines (build_layout fm (f_sp_w s') (text_align s') (win_w s') (text_str s'))"
    and x: "l_word_xs s' = wxs (build_layout fm (f_sp_w s') (text_align s') (win_w s') (text_str s'))"
    and p: "l_pause s' = pauses (build_layout fm (f_sp_w s') (text_align s') (win_w s') (text_str s'))"
    by blast
  from layout_inv_build [of fm "f_sp_w s'" "win_w s'" "text_align s'" "text_str s'"]
  have a: "list_all2 (line_ok fm (f_sp_w s') (win_w s' - 80)) (l_lines s') (l_word_xs s')"
    and b: "\<forall>i \<in> l_pause s'. 0 \<le> i \<and> nat i < length (l_lines s') \<and> l_word_xs s' ! nat i = []"
    unfolding l x p by (simp_all add: layout_inv_def)
  from a have len: "length (l_lines s') = length (l_word_xs s')" by (rule list_all2_lengthD)
  from b len have c2: "\<forall>i \<in> l_pause s'. 0 \<le> i \<and> nat i < length (l_word_xs s') \<and>
      l_word_xs s' ! nat i = [] \<and> \<not> highlight_path wh af (l_word_xs s' ! nat i)"
    by (simp add: highlight_path_def)
  have c3: "\<forall>i < length (l_lines s'). l_lines s' ! i = [] \<longrightarrow>
        l_word_xs s' ! i = [] \<and> \<not> highlight_path wh af (l_word_xs s' ! i)"
  proof (intro allI impI)
    fix i assume i: "i < length (l_lines s')" and e: "l_lines s' ! i = []"
    from a i have ok: "line_ok fm (f_sp_w s') (win_w s' - 80) (l_lines s' ! i) (l_word_xs s' ! i)"
      by (simp add: list_all2_conv_all_nth)
    have "l_word_xs s' ! i = []"
    proof (rule ccontr)
      assume n: "l_word_xs s' ! i \<noteq> []"
      with ok e have "join_sp (map fst (l_word_xs s' ! i)) = []"
        and "[] \<notin> set (map fst (l_word_xs s' ! i))" by (simp_all add: line_ok_def)
      with n show False by (simp add: join_sp_Nil)
    qed
    then show "l_word_xs s' ! i = [] \<and> \<not> highlight_path wh af (l_word_xs s' ! i)"
      by (simp add: highlight_path_def)
  qed
  from len have c4: "\<forall>i \<in> set (painted H focus_y s'). 0 \<le> i \<and> nat i < length (l_word_xs s')"
    by (auto dest: painted_bounds)
  from len c2 c3 c4 show ?thesis by blast
qed

theorem lines_and_word_xs_agree_witness:
  "\<exists>s'. ensure_layout (fixed_qfm 40 60) narrow = Inr s' \<and>
      \<not> layout_hit (ensure_font (fixed_qfm 40 60) narrow) \<and>
      length (l_lines s') = 5 \<and> length (l_word_xs s') = 5 \<and>
      2 \<in> l_pause s' \<and> l_word_xs s' ! 2 = [] \<and>
      l_lines s' ! 3 = [] \<and> l_word_xs s' ! 3 = [] \<and>
      painted 420 210 s' = [0, 1, 2, 3, 4] \<and>
      \<not> highlight_path True True (l_word_xs s' ! 2) \<and>
      \<not> highlight_path True True (l_word_xs s' ! 3)"
proof -
  let ?q = "fixed_qfm 40 60"
  from narrow_layout obtain s' where s': "ensure_layout ?q narrow = Inr s'"
    and l: "l_lines s' = [''alpha beta'', ''gamma'', ''[PAUSE]'', [], ''incomprehensibilities'']"
    and p: "l_pause s' = {2}" and h: "f_line_h s' = 72" and y: "scroll_y s' = 0"
    by (cases "ensure_layout ?q narrow") auto
  note th = lines_and_word_xs_agree [OF s' narrow_miss, of True True 420 210]
  from l have n: "length (l_lines s') = 5" "l_lines s' ! 3 = []" by simp_all
  from th n have n': "length (l_word_xs s') = 5" by simp
  from th p have x2: "l_word_xs s' ! 2 = []" "\<not> highlight_path True True (l_word_xs s' ! 2)"
    by (simp_all add: highlight_path_def)
  from th n have x3: "l_word_xs s' ! 3 = []" "\<not> highlight_path True True (l_word_xs s' ! 3)"
    by (simp_all add: highlight_path_def)
  have pt: "painted 420 210 s' = [0, 1, 2, 3, 4]"
    by (simp add: painted_def first_i_def last_i_def h y n py_int_def upto.simps)
  from p have "2 \<in> l_pause s'" by simp
  with s' narrow_miss n n' x2 x3 pt show ?thesis by blast
qed

subsection \<open>The note pattern on a line with one directive\<close>

lemma note_match_at_other: "CHR ''['' \<noteq> c \<Longrightarrow> note_match_at (c # cs) = None"
  by (cases "c # cs" rule: note_match_at.cases) auto

lemma lazy_body_close:
  assumes "CHR '']'' \<notin> set g" and "CHR 0x0A \<notin> set g"
  shows "lazy_body (g @ '']]'' @ post) = Some (g, post)"
  using assms
proof (induction g)
  case Nil
  then show ?case by simp
next
  case (Cons c g)
  then have ih: "lazy_body (g @ '']]'' @ post) = Some (g, post)" by simp
  obtain d ds where d: "g @ '']]'' @ post = d # ds" by (cases "g @ '']]'' @ post") simp_all
  from Cons.prems have "c \<noteq> CHR '']''" "c \<noteq> CHR 0x0A" by auto
  then have "lazy_body (c # d # ds) = map_option (\<lambda>(g, r). (c # g, r)) (lazy_body (d # ds))"
    by simp
  with ih d show ?case by simp
qed

lemma note_match_at_directive:
  assumes "g \<noteq> []" and "CHR '']'' \<notin> set g" and "CHR 0x0A \<notin> set g"
  shows "note_match_at (''[['' @ g @ '']]'' @ post) = Some (g, post)"
proof -
  from assms(1) obtain x g' where g: "g = x # g'" by (cases g) auto
  with assms have "CHR '']'' \<notin> set g'" "CHR 0x0A \<notin> set g'" "x \<noteq> CHR 0x0A" by auto
  with lazy_body_close [of g' post] show ?thesis by (simp add: g)
qed

lemma note_search_directive:
  assumes "CHR ''['' \<notin> set pre" and "g \<noteq> []" and "CHR '']'' \<notin> set g" and "CHR 0x0A \<notin> set g"
  shows "note_search (pre @ ''[['' @ g @ '']]'' @ post) = Some g"
  using assms(1)
proof (induction pre)
  case Nil
  from note_match_at_directive [OF assms(2-4), of post] show ?case by simp
next
  case (Cons c pre)
  then have "note_match_at (c # pre @ ''[['' @ g @ '']]'' @ post) = None"
    by (intro note_match_at_other) simp
  with Cons show ?case by simp
qed

lemma note_sub_plain: "CHR ''['' \<notin> set s \<Longrightarrow> note_sub s = s"
  by (induction s) (simp_all add: note_match_at_other)

lemma note_sub_directive:
  assumes "CHR ''['' \<notin> set pre" and "g \<noteq> []" and "CHR '']'' \<notin> set g" and "CHR 0x0A \<notin> set g"
    and "CHR ''['' \<notin> set post"
  shows "note_sub (pre @ ''[['' @ g @ '']]'' @ post) = pre @ post"
  using assms(1)
proof (induction pre)
  case Nil
  from note_match_at_directive [OF assms(2-4), of post]
  have "note_sub (''[['' @ g @ '']]'' @ post) = note_sub post" by simp
  with note_sub_plain [OF assms(5)] show ?case by simp
next
  case (Cons c pre)
  then have "note_match_at (c # pre @ ''[['' @ g @ '']]'' @ post) = None"
    by (intro note_match_at_other) simp
  with Cons show ?case by simp
qed

subsection \<open>Notes\<close>

lemma layout_raw_lines:
  "\<exists>ls ws. lines (layout_raw fm sp_w al W mw L raw) = lines L @ ls \<and>
     wxs (layout_raw fm sp_w al W mw L raw) = wxs L @ ws \<and> ls \<noteq> [] \<and>
     (strip (note_sub raw) \<noteq> [] \<and> strip (note_sub raw) \<noteq> PAUSE_TAG \<longrightarrow>
        concat (map (map fst) ws) = split_ws (strip (note_sub raw)) \<and>
        ls = map (\<lambda>wl. join_sp (map fst wl)) ws)"
proof -
  let ?para = "strip (note_sub raw)"
  let ?L1 = "if ?para = [] then L\<lparr>lines := lines L @ [[]], wxs := wxs L @ [[]]\<rparr>
                else if ?para = PAUSE_TAG
                then L\<lparr>lines := lines L @ [PAUSE_TAG], wxs := wxs L @ [[]],
                       pauses := insert (int (length (lines L))) (pauses L)\<rparr>
                else wrap_para fm sp_w al W mw ?para L"
  have l: "lines (layout_raw fm sp_w al W mw L raw) = lines ?L1"
    "wxs (layout_raw fm sp_w al W mw L raw) = wxs ?L1"
    by (cases "note_search raw"; simp add: layout_raw_def Let_def)+
  let ?C = "\<lambda>ls ws. lines ?L1 = lines L @ ls \<and> wxs ?L1 = wxs L @ ws \<and> ls \<noteq> [] \<and>
     (?para \<noteq> [] \<and> ?para \<noteq> PAUSE_TAG \<longrightarrow>
        concat (map (map fst) ws) = split_ws ?para \<and>
        ls = map (\<lambda>wl. join_sp (map fst wl)) ws)"
  have "\<exists>ls ws. ?C ls ws"
  proof (cases "?para = []")
    case True
    then have c: "?C [[]] [[]]" by simp
    show ?thesis by (rule exI [where x = "[[]]"], rule exI [where x = "[[]]"]) (rule c)
  next
    case ne: False
    show ?thesis
    proof (cases "?para = PAUSE_TAG")
      case True
      with ne have c: "?C [PAUSE_TAG] [[]]" by simp
      show ?thesis by (rule exI [where x = "[PAUSE_TAG]"], rule exI [where x = "[[]]"]) (rule c)
    next
      case False
      from wrap_para_groups [of fm sp_w al W mw ?para L]
      obtain gs where
        r: "wrap_para fm sp_w al W mw ?para L =
             L\<lparr>lines := lines L @ map join_sp gs,
               wxs := wxs L @ map (\<lambda>g. word_xs g fm sp_w al W) gs\<rparr>"
        and c: "concat gs = split_ws ?para"
        by blast
      from strip_has_word [OF ne] c have n: "gs \<noteq> []" by auto
      have m: "map (map fst) (map (\<lambda>g. word_xs g fm sp_w al W) gs) = gs"
        by (simp add: map_fst_word_xs comp_def)
      have j: "map (\<lambda>wl. join_sp (map fst wl)) (map (\<lambda>g. word_xs g fm sp_w al W) gs) =
          map join_sp gs"
        by (simp add: map_fst_word_xs comp_def)
      from ne False r n c
      have c: "?C (map join_sp gs) (map (\<lambda>g. word_xs g fm sp_w al W) gs)"
        unfolding m j by simp
      show ?thesis
        by (rule exI [where x = "map join_sp gs"],
            rule exI [where x = "map (\<lambda>g. word_xs g fm sp_w al W) gs"]) (rule c)
    qed
  qed
  then show ?thesis unfolding l .
qed

lemma layout_raw_notes:
  "notes_m (layout_raw fm sp_w al W mw L raw) =
     (case note_search raw of
        None \<Rightarrow> notes_m L
      | Some g \<Rightarrow> (notes_m L)(int (length (lines L)) \<mapsto> strip g))"
proof -
  let ?para = "strip (note_sub raw)"
  have w: "notes_m (wrap_para fm sp_w al W mw ?para L) = notes_m L"
    using wrap_para_groups [of fm sp_w al W mw ?para L] by auto
  show ?thesis
    by (cases "note_search raw") (simp_all add: layout_raw_def Let_def w)
qed

lemma split_nl_script_note:
  "split_nl script_note = [''Note here [[remember this]]'', ''more text'']"
  by (simp add: script_note_def split_nl_def)

lemma script_note_first:
  "lines (layout_raw fm sp_w al W mw empty_layout ''Note here [[remember this]]'') =
     (if horizontalAdvance fm ''Note'' + sp_w + horizontalAdvance fm ''here'' \<le> mw
      then [''Note here''] else [''Note'', ''here''])"
  by (simp add: layout_raw_def strip_def is_space_def empty_layout_def PAUSE_TAG_def
      wrap_para_def split_ws_def Let_def)

text \<open>
  C8, as amended. On a line with one directive \<open>[[g]]\<close> (no other opening bracket on the
  line, \<open>g\<close> not empty and without closing bracket), the note map gets the entry from the
  index of the first display line of that paragraph to \<open>g\<close> stripped; the paragraph adds at
  least one line, and when it is wrapped the words of its lines are the words of the line
  with the directive removed. For the script of the scenario the note map is
  \<open>{0: "remember this"}\<close> for every font and width; line 0 is \<open>"Note here"\<close> when the two
  words and a space fit in the width minus 80, and otherwise lines 0 and 1 are \<open>"Note"\<close>
  and \<open>"here"\<close>.
\<close>

theorem note_anchored:
  assumes "raw = pre @ ''[['' @ g @ '']]'' @ post"
    and "CHR ''['' \<notin> set pre" and "CHR ''['' \<notin> set post"
    and "g \<noteq> []" and "CHR '']'' \<notin> set g" and "CHR 0x0A \<notin> set g"
  shows "notes_m (layout_raw fm sp_w al W mw L raw) =
      (notes_m L)(int (length (lines L)) \<mapsto> strip g) \<and>
    (\<exists>ls ws. lines (layout_raw fm sp_w al W mw L raw) = lines L @ ls \<and>
       wxs (layout_raw fm sp_w al W mw L raw) = wxs L @ ws \<and> ls \<noteq> [] \<and>
       (strip (pre @ post) \<noteq> [] \<and> strip (pre @ post) \<noteq> PAUSE_TAG \<longrightarrow>
          concat (map (map fst) ws) = split_ws (strip (pre @ post)) \<and>
          ls = map (\<lambda>wl. join_sp (map fst wl)) ws)) \<and>
    notes_m (build_layout fm sp_w al W script_note) = [0 \<mapsto> ''remember this''] \<and>
    (horizontalAdvance fm ''Note'' + sp_w + horizontalAdvance fm ''here'' \<le> W - 80 \<longrightarrow>
       lines (build_layout fm sp_w al W script_note) ! 0 = ''Note here'') \<and>
    (\<not> horizontalAdvance fm ''Note'' + sp_w + horizontalAdvance fm ''here'' \<le> W - 80 \<longrightarrow>
       lines (build_layout fm sp_w al W script_note) ! 0 = ''Note'' \<and>
       lines (build_layout fm sp_w al W script_note) ! 1 = ''here'')"
proof -
  have s: "note_search raw = Some g"
    unfolding assms(1) by (rule note_search_directive [OF assms(2,4,5,6)])
  have r: "note_sub raw = pre @ post"
    unfolding assms(1) by (rule note_sub_directive [OF assms(2,4,5,6,3)])
  have c1: "notes_m (layout_raw fm sp_w al W mw L raw) =
      (notes_m L)(int (length (lines L)) \<mapsto> strip g)"
    by (simp add: layout_raw_notes s)
  note c2 = layout_raw_lines [of fm sp_w al W mw L raw, unfolded r]
  let ?r1 = "''Note here [[remember this]]''" and ?r2 = "''more text''"
  let ?L1 = "layout_raw fm sp_w al W (W - 80) empty_layout ?r1"
  have b: "build_layout fm sp_w al W script_note = layout_raw fm sp_w al W (W - 80) ?L1 ?r2"
    by (simp add: build_layout_def split_nl_script_note)
  have c3: "notes_m (build_layout fm sp_w al W script_note) = [0 \<mapsto> ''remember this'']"
    unfolding b by (simp add: layout_raw_notes empty_layout_def strip_def is_space_def)
  from layout_raw_lines [of fm sp_w al W "W - 80" ?L1 ?r2]
  obtain ls where l: "lines (build_layout fm sp_w al W script_note) = lines ?L1 @ ls"
    unfolding b by blast
  have c4: "horizontalAdvance fm ''Note'' + sp_w + horizontalAdvance fm ''here'' \<le> W - 80 \<longrightarrow>
       lines (build_layout fm sp_w al W script_note) ! 0 = ''Note here''"
    unfolding l by (simp add: script_note_first)
  have c5: "\<not> horizontalAdvance fm ''Note'' + sp_w + horizontalAdvance fm ''here'' \<le> W - 80 \<longrightarrow>
       lines (build_layout fm sp_w al W script_note) ! 0 = ''Note'' \<and>
       lines (build_layout fm sp_w al W script_note) ! 1 = ''here''"
    unfolding l by (simp add: script_note_first)
  from c1 c2 c3 c4 c5 show ?thesis by blast
qed

theorem note_anchored_witness:
  "notes_m (build_layout (fixed_qfm 10 40 ''Arial'' 48) 10 AlignLeft 920 script_note) =
     [0 \<mapsto> ''remember this''] \<and>
   lines (build_layout (fixed_qfm 10 40 ''Arial'' 48) 10 AlignLeft 920 script_note) ! 0 =
     ''Note here'' \<and>
   notes_m (layout_raw (fixed_qfm 10 40 ''Arial'' 48) 10 AlignLeft 920 840 empty_layout
      ''Note here [[remember this]]'') = [0 \<mapsto> ''remember this'']"
proof -
  let ?fm = "fixed_qfm 10 40 ''Arial'' 48"
  have a: "''Note here [[remember this]]'' = ''Note here '' @ ''[['' @ ''remember this'' @ '']]'' @ []"
    "CHR ''['' \<notin> set ''Note here ''" "CHR ''['' \<notin> set []" "''remember this'' \<noteq> []"
    "CHR '']'' \<notin> set ''remember this''" "CHR 0x0A \<notin> set ''remember this''"
    by simp_all
  note th = note_anchored [OF a, of ?fm 10 AlignLeft 920 840 empty_layout]
  have f: "horizontalAdvance ?fm ''Note'' + 10 + horizontalAdvance ?fm ''here'' \<le> 920 - 80"
    by (simp add: fixed_qfm_def)
  have e: "notes_m empty_layout = Map.empty" "lines empty_layout = []"
    by (simp_all add: empty_layout_def)
  have st: "strip ''remember this'' = ''remember this''"
    by (simp add: strip_def is_space_def)
  from th f have "lines (build_layout ?fm 10 AlignLeft 920 script_note) ! 0 = ''Note here''"
    by blast
  moreover from th have "notes_m (build_layout ?fm 10 AlignLeft 920 script_note) =
     [0 \<mapsto> ''remember this'']" by blast
  moreover from th have "notes_m (layout_raw ?fm 10 AlignLeft 920 840 empty_layout
      ''Note here [[remember this]]'') =
        (notes_m empty_layout)(int (length (lines empty_layout)) \<mapsto> strip ''remember this'')"
    by blast
  then have "notes_m (layout_raw ?fm 10 AlignLeft 920 840 empty_layout
      ''Note here [[remember this]]'') = [0 \<mapsto> ''remember this'']"
    by (simp add: e st)
  ultimately show ?thesis by blast
qed

lemma cramped_layout:
  "case ensure_layout (fixed_qfm 100 150) cramped of Inl x \<Rightarrow> False
   | Inr s' \<Rightarrow> l_lines s' = [''Note'', ''here'', ''more'', ''text''] \<and>
       l_notes s' 0 = Some ''remember this'' \<and> win_w s' = 640 \<and> font_size s' = 120"
  by (simp add: cramped_def on_font_def invalidate_layout_def script_note_def resizeEvent_def
      set_text_def state_eval layout_eval)

text \<open>
  C8 as stated fails in the smallest window (640 wide) with the largest font (120 points,
  here 100 pixels a character): line 0 is \<open>"Note"\<close>, not \<open>"Note here"\<close>.
\<close>

theorem note_line_wraps:
  "case ensure_layout (fixed_qfm 100 150) cramped of Inl x \<Rightarrow> False
   | Inr s' \<Rightarrow> l_notes s' 0 = Some ''remember this'' \<and> l_lines s' ! 0 = ''Note'' \<and>
       l_lines s' ! 0 \<noteq> ''Note here''"
  using cramped_layout by (cases "ensure_layout (fixed_qfm 100 150) cramped") auto

subsection \<open>Pause lines\<close>

text \<open>
  When the tick finds that the focus line has changed and is a pause line, it sets
  \<open>scroll_y\<close> to the top edge of that line, which the advanced offset has reached, and
  stops playing.
\<close>

lemma py_int_floor_le:
  assumes "0 \<le> x" and "0 < h"
  shows "real_of_int (py_int (x / real_of_int h) * h) \<le> x"
proof -
  let ?y = "x / real_of_int h"
  from assms have p: "py_int ?y = \<lfloor>?y\<rfloor>" by (simp add: py_int_def)
  have "real_of_int \<lfloor>?y\<rfloor> \<le> ?y" by (rule of_int_floor_le)
  with assms(2) have "real_of_int \<lfloor>?y\<rfloor> * real_of_int h \<le> ?y * real_of_int h"
    by (intro mult_right_mono) simp_all
  also from assms(2) have "?y * real_of_int h = x" by simp
  finally show ?thesis by (simp add: p)
qed

lemma pause_snap:
  assumes "ensure_layout q (advance e s) = Inr s1"
    and "0 < f_line_h s1"
    and "py_int (scroll_y s1 / real_of_int (f_line_h s1)) \<noteq> last_fl s"
    and "py_int (scroll_y s1 / real_of_int (f_line_h s1)) \<in> l_pause s1"
  shows "\<exists>s'. scroll_step q e s = Inr s' \<and>
    scroll_y s' = real_of_int (py_int (scroll_y s1 / real_of_int (f_line_h s1)) * f_line_h s1) \<and>
    \<not> is_playing s' \<and> last_fl s' = py_int (scroll_y s1 / real_of_int (f_line_h s1)) \<and>
    (0 \<le> scroll_y s1 \<longrightarrow> scroll_y s' \<le> scroll_y s1)"
proof -
  have l: "last_fl s1 = last_fl s"
    using ensure_layout_keeps(6) [OF assms(1)] by (simp add: advance_def Let_def)
  let ?fl = "py_int (scroll_y s1 / real_of_int (f_line_h s1))"
  from assms(2-4) l have a: "after_layout s1 =
      do_pause (s1\<lparr>last_fl := ?fl, scroll_y := real_of_int (?fl * f_line_h s1)\<rparr>)"
    by (simp add: after_layout_def Let_def)
  have "scroll_step q e s = Inr (after_layout s1)" by (simp add: scroll_step_def assms(1))
  moreover have "scroll_y (after_layout s1) = real_of_int (?fl * f_line_h s1)"
    "\<not> is_playing (after_layout s1)" "last_fl (after_layout s1) = ?fl"
    unfolding a by (simp_all add: do_pause_def)
  moreover have "0 \<le> scroll_y s1 \<longrightarrow> real_of_int (?fl * f_line_h s1) \<le> scroll_y s1"
    using py_int_floor_le [of "scroll_y s1" "f_line_h s1"] assms(2) by blast
  ultimately show ?thesis by simp
qed

text \<open>
  C1 on the code. At the highest speed (20), after a stall that gives the longest tick
  (100 ms), with a line height of 48: the tick moves \<open>scroll_y\<close> from 0 to about 120, into line
  2. Line 1 is a pause line (the pause set is \<open>{1}\<close>) whose top edge 48 and bottom edge 96
  have both been passed; the window still plays and nothing was snapped. A tick of 50 ms
  from the same state lands in line 1, snaps to 48 and pauses.
\<close>

theorem pause_line_jumped_over:
  "case scroll_step (fixed_qfm 10 40) 100 fast_play of Inl x \<Rightarrow> False
   | Inr s' \<Rightarrow> is_playing fast_play \<and> scroll_y fast_play = 0 \<and> speed fast_play = 20 \<and>
       l_pause s' = {1} \<and> f_line_h s' = 48 \<and> l_total s' = 192 \<and>
       is_playing s' \<and> scroll_y s' = 2000000 / 16667 \<and> 96 < scroll_y s' \<and> last_fl s' = 2"
  by (simp add: fast_play_def toggle_play_def begin_play_def on_speed_def script_pause_def
      set_text_def tick_eval state_eval layout_eval)

lemma pause_line_reached:
  "case scroll_step (fixed_qfm 10 40) 50 fast_play of Inl x \<Rightarrow> False
   | Inr s' \<Rightarrow> l_pause s' = {1} \<and> \<not> is_playing s' \<and> scroll_y s' = 48 \<and> last_fl s' = 1"
  by (simp add: fast_play_def toggle_play_def begin_play_def on_speed_def script_pause_def
      set_text_def tick_eval state_eval layout_eval)

subsection \<open>The range of the scroll offset\<close>

lemma idle4_layout:
  "case ensure_layout (fixed_qfm 10 40) idle4 of Inl x \<Rightarrow> False
   | Inr s \<Rightarrow> l_total s = 192 \<and> scroll_y s = 0 \<and> \<not> is_playing s"
  by (simp add: idle4_def script4_def set_text_def state_eval layout_eval)

text \<open>
  C4 on the code. The four-line script is laid out (total height 192) in an idle window at
  offset 0. Three presses of the right arrow key give \<open>scroll_y = 240\<close>, above the total
  height: the key adds 80 with no upper clamp, where the left arrow key clamps at 0 and
  the tick clamps at the total height. When play then starts, the first tick takes
  \<open>scroll_y\<close> down from 240 to 192 and stops.
\<close>

theorem key_right_passes_total:
  "case ensure_layout (fixed_qfm 10 40) idle4 of Inl x \<Rightarrow> False
   | Inr s \<Rightarrow>
       (let k = keyPressEvent Key_Right (keyPressEvent Key_Right (keyPressEvent Key_Right s))
        in l_total s = 192 \<and> scroll_y s = 0 \<and> l_total k = 192 \<and> scroll_y k = 240 \<and>
           l_total k < scroll_y k \<and>
           scroll_y (keyPressEvent Key_Left s) = 0 \<and>
           (case scroll_step (fixed_qfm 10 40) 16 (begin_play k) of Inl x \<Rightarrow> False
            | Inr t \<Rightarrow> is_playing (begin_play k) \<and> scroll_y t = 192 \<and>
                scroll_y t < scroll_y (begin_play k) \<and> \<not> is_playing t))"
  by (simp add: idle4_def script4_def set_text_def keyPressEvent_def begin_play_def
      tick_eval state_eval layout_eval)

end
